theory Spec2Isabelle
  imports Complex_Main "HOL-Library.AList"
begin

section \<open>Data model of \<open>PC.py\<close>\<close>

text \<open>
  Python strings are lists of Unicode code points, so that the substring tests of the
  source (\<open>"..." in name\<close>) on its Chinese literals are tests on code points.
  An ASCII literal is written through \<open>ascii\<close>.
\<close>

type_synonym pystr = "nat list"

definition ascii :: "string \<Rightarrow> pystr" where
  "ascii cs = map of_char cs"

text \<open>Python's \<open>needle in hay\<close> on strings: \<open>needle\<close> occurs as a contiguous run.\<close>

fun starts_with :: "'a list \<Rightarrow> 'a list \<Rightarrow> bool" where
  "starts_with [] hay = True"
| "starts_with (c # cs) [] = False"
| "starts_with (c # cs) (h # hs) = (c = h \<and> starts_with cs hs)"

fun py_in :: "'a list \<Rightarrow> 'a list \<Rightarrow> bool" where
  "py_in needle [] = (needle = [])"
| "py_in needle (h # hs) = (starts_with needle (h # hs) \<or> py_in needle hs)"

text \<open>The configuration constants (lines 22-24).\<close>

definition STABILITY_FRAMES :: int where "STABILITY_FRAMES = 20"
definition MAX_RPM :: int where "MAX_RPM = 5"
definition MAX_MISSING_FRAMES :: int where "MAX_MISSING_FRAMES = 30"

text \<open>
  The string literals of the source: the placeholder \<open>Thinking...\<close>, the tested
  substring \<open>Thinking\<close>, U+5931 U+6557 (``failed''), U+932F U+8AA4 (``error''), the
  two labels the worker stores when recognition does not succeed (U+8FA8 U+8B58 U+5931
  U+6557, ``recognition failed'', and \<open>API\<close> U+932F U+8AA4, ``API error''), and \<open>429\<close>.
\<close>

definition lit_thinking_dots :: pystr where "lit_thinking_dots = ascii ''Thinking...''"
definition lit_thinking :: pystr where "lit_thinking = ascii ''Thinking''"
definition lit_failed :: pystr where "lit_failed = [0x5931, 0x6557]"
definition lit_error :: pystr where "lit_error = [0x932F, 0x8AA4]"
definition lit_recognition_failed :: pystr where
  "lit_recognition_failed = [0x8FA8, 0x8B58, 0x5931, 0x6557]"
definition lit_api_error :: pystr where "lit_api_error = ascii ''API'' @ [0x932F, 0x8AA4]"
definition lit_429 :: pystr where "lit_429 = ascii ''429''"

text \<open>
  An entry of \<open>object_database\<close> (lines 302-308). The field \<open>status\<close> only ever holds
  the literals \<open>"pending"\<close>, \<open>"sending"\<close> and \<open>"done"\<close>.
\<close>

datatype status = Pending | Sending | Done

record obj =
  yolo_name :: pystr
  gemini_name :: pystr
  status :: status
  frame_count :: int
  missing_count :: int

text \<open>
  A queued task \<open>(track_id, cropped_img, current_yolo_name)\<close> (line 326). The image
  is opaque here: the crop is kept as the slice bounds
  \<open>(max(0,y1), min(h,y2), max(0,x1), min(w,x2))\<close>.
\<close>

record task =
  task_id :: int
  task_crop :: "int \<times> int \<times> int \<times> int"
  task_hint :: pystr

text \<open>
  What is handed to \<open>sio.emit\<close>: the add payload \<open>{name, quantity: 1, isAutoMode:
  False}\<close>, the removal payload \<open>{name, quantity: 1, action: "REMOVE"}\<close> (both on
  \<open>detect_item\<close>), and \<open>register_detector\<close>.
\<close>

datatype payload = Detect_item pystr | Remove_item pystr | Register_detector

text \<open>
  The calls the code makes to its collaborators, logged in program order:
  \<open>check_api_quota\<close> with its answer, \<open>time.sleep\<close>, \<open>generate_content\<close> on the
  named model, \<open>sio.emit\<close> and \<open>task_queue.put\<close>.
\<close>

datatype call = QuotaCheck bool | Sleep nat | Generate pystr | Emit payload | Put task

datatype py_error = KeyError | ZeroDivisionError

text \<open>
  The fields of \<open>SmartVisionSystem\<close> that the lifecycle code reads and writes.
  Clock readings (\<open>time.time()\<close>) are real numbers. \<open>worker_task\<close> is the task the
  worker thread holds between taking it from the queue and writing its result back.
\<close>

record sys =
  object_database :: "(int \<times> obj) list"
  task_queue :: "task list"
  api_history :: "real list"
  is_connected :: bool
  valid_models :: "pystr list"
  current_model_index :: nat
  model_name :: pystr
  worker_task :: "task option"
  trace :: "call list"

text \<open>
  One tracked box of a frame, after \<open>map(int, box)\<close> and \<open>names[cls_id]\<close>, together
  with the two clock readings the code may take while it handles the box (inside
  \<open>check_api_quota\<close> on line 316 and on line 319).
\<close>

record detection =
  det_id :: int
  det_x1 :: int
  det_y1 :: int
  det_x2 :: int
  det_y2 :: int
  det_name :: pystr
  det_clock_gate :: real
  det_clock_reserve :: real

record frame =
  frame_h :: int
  frame_w :: int
  detections :: "detection list"

text \<open>
  One pass through the body of the retry loop sees: the clock inside
  \<open>check_api_quota\<close>, the outcome of lines 219-220 (the stripped text of the
  response, or the text of the exception), and the clock on line 222.
\<close>

datatype api_result = Response pystr | ApiError pystr

record attempt_env =
  clock_check :: real
  api :: api_result
  clock_record :: real

section \<open>Operations\<close>

subsection \<open>Quota tracker (lines 264-269)\<close>

definition check_api_quota :: "real \<Rightarrow> sys \<Rightarrow> bool \<times> sys" where
  "check_api_quota current_time s =
     (let h = filter (\<lambda>t. current_time - t < 60) (api_history s);
          ok = (int (length h) < MAX_RPM)
      in (ok, s\<lparr>api_history := h, trace := trace s @ [QuotaCheck ok]\<rparr>))"

subsection \<open>Backend rotation (lines 180-184)\<close>

definition switch_next_model :: "sys \<Rightarrow> py_error + sys" where
  "switch_next_model s =
     (if valid_models s = [] then Inl ZeroDivisionError
      else let i = (current_model_index s + 1) mod length (valid_models s)
           in Inr (s\<lparr>current_model_index := i, model_name := valid_models s ! i\<rparr>))"

subsection \<open>Frame pass (lines 285-373)\<close>

definition new_object :: "pystr \<Rightarrow> obj" where
  "new_object yolo_raw_name =
     \<lparr>yolo_name = yolo_raw_name, gemini_name = [], status = Pending,
      frame_count = 0, missing_count = 0\<rparr>"

definition crop_bounds :: "int \<Rightarrow> int \<Rightarrow> detection \<Rightarrow> int \<times> int \<times> int \<times> int" where
  "crop_bounds h w det =
     (max 0 (det_y1 det), min h (det_y2 det), max 0 (det_x1 det), min w (det_x2 det))"

text \<open>The body of the loop over the boxes, lines 296-329 (drawing left out).\<close>

definition track_detection :: "int \<Rightarrow> int \<Rightarrow> detection \<Rightarrow> sys \<Rightarrow> sys" where
  "track_detection h w det s =
     (let track_id = det_id det;
          d0 = (case map_of (object_database s) track_id of
                  None \<Rightarrow> new_object (det_name det)
                | Some d \<Rightarrow> d);
          obj_data = d0\<lparr>missing_count := 0, frame_count := frame_count d0 + 1\<rparr>;
          s1 = s\<lparr>object_database := AList.update track_id obj_data (object_database s)\<rparr>
      in if status obj_data = Pending \<and> frame_count obj_data > STABILITY_FRAMES then
           (let (ok, s2) = check_api_quota (det_clock_gate det) s1
            in if ok then
                 (if det_x2 det - det_x1 det > 80 \<and> det_y2 det - det_y1 det > 80 then
                    (let t = \<lparr>task_id = track_id, task_crop = crop_bounds h w det,
                              task_hint = det_name det\<rparr>
                     in s2\<lparr>api_history := api_history s2 @ [det_clock_reserve det],
                           object_database :=
                             AList.update track_id
                               (obj_data\<lparr>status := Sending, gemini_name := lit_thinking_dots\<rparr>)
                               (object_database s2),
                           task_queue := task_queue s2 @ [t],
                           trace := trace s2 @ [Put t]\<rparr>)
                  else s2)
               else s2)
         else s1)"

text \<open>Line 358: whether the removal of an evicted object is announced.\<close>

definition removal_announced :: "bool \<Rightarrow> pystr \<Rightarrow> bool" where
  "removal_announced conn product_name =
     (conn \<and> product_name \<noteq> [] \<and> \<not> py_in lit_thinking product_name
        \<and> \<not> py_in lit_failed product_name)"

text \<open>The body of the loop over \<open>existing_ids\<close>, lines 354-371.\<close>

definition evict_one :: "int set \<Rightarrow> int \<Rightarrow> sys \<Rightarrow> py_error + sys" where
  "evict_one current_frame_ids db_id s =
     (if db_id \<in> current_frame_ids then Inr s
      else case map_of (object_database s) db_id of
             None \<Rightarrow> Inl KeyError
           | Some d \<Rightarrow>
               (let d' = d\<lparr>missing_count := missing_count d + 1\<rparr>;
                    s1 = s\<lparr>object_database := AList.update db_id d' (object_database s)\<rparr>
                in if missing_count d' > MAX_MISSING_FRAMES then
                     (let product_name = gemini_name d';
                          s2 = (if removal_announced (is_connected s1) product_name
                                then s1\<lparr>trace := trace s1 @ [Emit (Remove_item product_name)]\<rparr>
                                else s1)
                      in Inr (s2\<lparr>object_database := AList.delete db_id (object_database s2)\<rparr>))
                   else Inr s1))"

fun evict_loop :: "int set \<Rightarrow> int list \<Rightarrow> sys \<Rightarrow> py_error + sys" where
  "evict_loop current_frame_ids [] s = Inr s"
| "evict_loop current_frame_ids (db_id # ids) s =
     (case evict_one current_frame_ids db_id s of
        Inl e \<Rightarrow> Inl e
      | Inr s' \<Rightarrow> evict_loop current_frame_ids ids s')"

definition process_frame :: "frame \<Rightarrow> sys \<Rightarrow> py_error + sys" where
  "process_frame f s =
     (let s1 = fold (track_detection (frame_h f) (frame_w f)) (detections f) s;
          current_frame_ids = set (map det_id (detections f));
          existing_ids = map fst (object_database s1)
      in evict_loop current_frame_ids existing_ids s1)"

subsection \<open>Resynchronisation (lines 146-160)\<close>

text \<open>Line 150: whether an entry is sent again.\<close>

definition resync_republished :: "obj \<Rightarrow> bool" where
  "resync_republished data =
     (status data = Done \<and> gemini_name data \<noteq> [] \<and> \<not> py_in lit_failed (gemini_name data))"

definition resync_one :: "int \<times> obj \<Rightarrow> sys \<Rightarrow> sys" where
  "resync_one item s =
     (let data = snd item
      in if resync_republished data
         then s\<lparr>trace := trace s @ [Emit (Detect_item (gemini_name data))]\<rparr>
         else s)"

definition on_resync_request :: "sys \<Rightarrow> sys" where
  "on_resync_request s = fold resync_one (object_database s) s"

subsection \<open>Enrichment worker (lines 186-262)\<close>

text \<open>
  Lines 213-236, one pass through the body of the retry loop: the quota check, the
  pause when it reports no capacity, the call, and the handling of its outcome.
\<close>

datatype attempt_outcome = Stop pystr | Again | Raised py_error

definition attempt :: "attempt_env \<Rightarrow> sys \<Rightarrow> sys \<times> attempt_outcome" where
  "attempt e s =
     (let (ok, s1) = check_api_quota (clock_check e) s;
          s2 = (if \<not> ok then s1\<lparr>trace := trace s1 @ [Sleep 5]\<rparr> else s1);
          s3 = s2\<lparr>trace := trace s2 @ [Generate (model_name s2)]\<rparr>
      in case api e of
           Response text \<Rightarrow> (s3\<lparr>api_history := api_history s3 @ [clock_record e]\<rparr>, Stop text)
         | ApiError err_msg \<Rightarrow>
             if py_in lit_429 err_msg then
               (let s4 = s3\<lparr>trace := trace s3 @ [Sleep 5]\<rparr>
                in case switch_next_model s4 of
                     Inl er \<Rightarrow> (s4, Raised er)
                   | Inr s5 \<Rightarrow> (s5, Again))
             else (s3, Stop lit_api_error))"

text \<open>
  Lines 208-236. The \<open>n\<close>-th pass through the body sees \<open>env n\<close>; every pass that
  loops has incremented \<open>attempts\<close>, so the pass number is \<open>attempts\<close>.
\<close>

function retry_loop ::
  "(nat \<Rightarrow> attempt_env) \<Rightarrow> nat \<Rightarrow> nat \<Rightarrow> pystr \<Rightarrow> sys \<Rightarrow> sys \<times> (py_error + pystr)" where
  "retry_loop env max_retries attempts product_name s =
     (if attempts < max_retries then
        (case attempt (env attempts) s of
           (s', Stop name) \<Rightarrow> (s', Inr name)
         | (s', Again) \<Rightarrow> retry_loop env max_retries (attempts + 1) product_name s'
         | (s', Raised er) \<Rightarrow> (s', Inl er))
      else (s, Inr product_name))"
  by pat_completeness auto
termination
  by (relation "measure (\<lambda>(env, max_retries, attempts, product_name, s). max_retries - attempts)") auto

declare retry_loop.simps [simp del]

text \<open>Lines 189-194: take a task; drop it when its id has left the registry.\<close>

definition worker_get :: "sys \<Rightarrow> sys" where
  "worker_get s =
     (case task_queue s of
        [] \<Rightarrow> s
      | t # rest \<Rightarrow>
          (let s1 = s\<lparr>task_queue := rest\<rparr>
           in if map_of (object_database s1) (task_id t) = None then s1
              else s1\<lparr>worker_task := Some t\<rparr>))"

text \<open>Line 245: whether the worker announces its result.\<close>

definition result_announced :: "bool \<Rightarrow> pystr \<Rightarrow> bool" where
  "result_announced conn product_name =
     (conn \<and> product_name \<noteq> [] \<and> \<not> py_in lit_failed product_name
        \<and> \<not> py_in lit_error product_name)"

text \<open>
  Lines 196-262 for the task in hand. \<open>img_ok\<close> tells whether the image conversion
  of lines 198-199 succeeds, \<open>emit_ok\<close> whether \<open>sio.emit\<close> on line 252 does; an
  exception outside the retry loop reaches the handler on line 261, which abandons
  the task.
\<close>

definition worker_finish :: "bool \<Rightarrow> (nat \<Rightarrow> attempt_env) \<Rightarrow> bool \<Rightarrow> sys \<Rightarrow> sys" where
  "worker_finish img_ok env emit_ok s =
     (case worker_task s of
        None \<Rightarrow> s
      | Some t \<Rightarrow>
          if \<not> img_ok then s\<lparr>worker_task := None\<rparr>
          else
            (case retry_loop env (length (valid_models s)) 0 lit_recognition_failed s of
               (s1, Inl er) \<Rightarrow> s1\<lparr>worker_task := None\<rparr>
             | (s1, Inr product_name) \<Rightarrow>
                 (let s2 = (case map_of (object_database s1) (task_id t) of
                              None \<Rightarrow> s1
                            | Some d \<Rightarrow>
                                s1\<lparr>object_database :=
                                     AList.update (task_id t)
                                       (d\<lparr>gemini_name := product_name, status := Done\<rparr>)
                                       (object_database s1)\<rparr>);
                      s3 = (if result_announced (is_connected s2) product_name then
                              (let s' = s2\<lparr>trace := trace s2 @ [Emit (Detect_item product_name)]\<rparr>
                               in if emit_ok then s' else s'\<lparr>is_connected := False\<rparr>)
                            else s2)
                  in s3\<lparr>worker_task := None\<rparr>)))"

subsection \<open>Reconnection (lines 135-144)\<close>

definition retry_connection :: "bool \<Rightarrow> sys \<Rightarrow> sys" where
  "retry_connection connect_ok s =
     (if is_connected s then s
      else let s1 = s\<lparr>trace := trace s @ [Sleep 5]\<rparr>
           in if connect_ok
              then s1\<lparr>is_connected := True, trace := trace s1 @ [Emit Register_detector]\<rparr>
              else s1)"

subsection \<open>The two threads, block by block\<close>

text \<open>
  The frame path and the worker run in two threads that share the registry under a
  lock. Each thread is cut into blocks at the points where it takes or releases the
  lock. For a box of a frame: lines 296-311 (counting, under the lock), lines 315-319
  (the test of status and frame count, the quota check, the size test and the
  reservation, without the lock) and lines 320-326 (writing sending under the lock
  and putting the task). For the worker: lines 189-194, lines 196-236 (recognition,
  without the lock), lines 238-241 (writing back, under the lock) and lines 243-257.
  The blocks without the lock read the registry on line 315 only, so for the registry
  a finer interleaving does no more than one of blocks.

  Line 315 reads the entry through the reference taken on line 311. That is the entry
  kept in the registry, since only the frame path removes entries; a missing entry is
  a \<open>KeyError\<close> here as on line 321, and \<open>step_total\<close> below shows that there is none.
\<close>

definition track_count :: "detection \<Rightarrow> sys \<Rightarrow> sys" where
  "track_count det s =
     (let track_id = det_id det;
          d0 = (case map_of (object_database s) track_id of
                  None \<Rightarrow> new_object (det_name det)
                | Some d \<Rightarrow> d);
          obj_data = d0\<lparr>missing_count := 0, frame_count := frame_count d0 + 1\<rparr>
      in s\<lparr>object_database := AList.update track_id obj_data (object_database s)\<rparr>)"

definition track_test :: "detection \<Rightarrow> sys \<Rightarrow> py_error + bool \<times> sys" where
  "track_test det s =
     (case map_of (object_database s) (det_id det) of
        None \<Rightarrow> Inl KeyError
      | Some obj_data \<Rightarrow>
          if status obj_data = Pending \<and> frame_count obj_data > STABILITY_FRAMES then
            (let (ok, s2) = check_api_quota (det_clock_gate det) s
             in if ok then
                  (if det_x2 det - det_x1 det > 80 \<and> det_y2 det - det_y1 det > 80
                   then Inr (True, s2\<lparr>api_history := api_history s2 @ [det_clock_reserve det]\<rparr>)
                   else Inr (False, s2))
                else Inr (False, s2))
          else Inr (False, s))"

definition track_send :: "int \<Rightarrow> int \<Rightarrow> detection \<Rightarrow> sys \<Rightarrow> py_error + sys" where
  "track_send h w det s =
     (case map_of (object_database s) (det_id det) of
        None \<Rightarrow> Inl KeyError
      | Some d \<Rightarrow>
          (let t = \<lparr>task_id = det_id det, task_crop = crop_bounds h w det,
                    task_hint = det_name det\<rparr>
           in Inr (s\<lparr>object_database :=
                        AList.update (det_id det)
                          (d\<lparr>status := Sending, gemini_name := lit_thinking_dots\<rparr>)
                          (object_database s),
                      task_queue := task_queue s @ [t],
                      trace := trace s @ [Put t]\<rparr>)))"

definition worker_recognise :: "bool \<Rightarrow> (nat \<Rightarrow> attempt_env) \<Rightarrow> sys \<Rightarrow> sys \<times> pystr option" where
  "worker_recognise img_ok env s =
     (if \<not> img_ok then (s, None)
      else case retry_loop env (length (valid_models s)) 0 lit_recognition_failed s of
             (s1, Inl er) \<Rightarrow> (s1, None)
           | (s1, Inr product_name) \<Rightarrow> (s1, Some product_name))"

definition worker_write :: "task \<Rightarrow> pystr \<Rightarrow> sys \<Rightarrow> sys" where
  "worker_write t product_name s =
     (case map_of (object_database s) (task_id t) of
        None \<Rightarrow> s
      | Some d \<Rightarrow>
          s\<lparr>object_database :=
               AList.update (task_id t) (d\<lparr>gemini_name := product_name, status := Done\<rparr>)
                 (object_database s)\<rparr>)"

definition worker_emit :: "bool \<Rightarrow> pystr \<Rightarrow> sys \<Rightarrow> sys" where
  "worker_emit emit_ok product_name s =
     (if result_announced (is_connected s) product_name then
        (let s' = s\<lparr>trace := trace s @ [Emit (Detect_item product_name)]\<rparr>
         in if emit_ok then s' else s'\<lparr>is_connected := False\<rparr>)
      else s)"

text \<open>
  Where each thread stands: the frame path between two passes, before the counting of
  the next box, before the test of the box counted, or before the write for the box
  that passed the test; the worker before taking a task, holding one, holding its
  label, or having stored it. The task in hand is \<open>worker_task\<close>.
\<close>

datatype frame_pc =
    Between
  | Counting frame "detection list"
  | Testing frame detection "detection list"
  | Writing frame detection "detection list"

datatype worker_pc = Waiting | Holding | Labelled pystr | Stored pystr

record system =
  shared :: sys
  frame_at :: frame_pc
  worker_at :: worker_pc

definition frame_step :: "system \<Rightarrow> py_error + system" where
  "frame_step c =
     (case frame_at c of
        Between \<Rightarrow> Inr c
      | Counting f boxes \<Rightarrow>
          (case boxes of
             [] \<Rightarrow>
               (case evict_loop (set (map det_id (detections f)))
                       (map fst (object_database (shared c))) (shared c) of
                  Inl e \<Rightarrow> Inl e
                | Inr s' \<Rightarrow> Inr (c\<lparr>shared := s', frame_at := Between\<rparr>))
           | det # rest \<Rightarrow>
               Inr (c\<lparr>shared := track_count det (shared c), frame_at := Testing f det rest\<rparr>))
      | Testing f det rest \<Rightarrow>
          (case track_test det (shared c) of
             Inl e \<Rightarrow> Inl e
           | Inr (go, s') \<Rightarrow>
               Inr (c\<lparr>shared := s',
                      frame_at := (if go then Writing f det rest else Counting f rest)\<rparr>))
      | Writing f det rest \<Rightarrow>
          (case track_send (frame_h f) (frame_w f) det (shared c) of
             Inl e \<Rightarrow> Inl e
           | Inr s' \<Rightarrow> Inr (c\<lparr>shared := s', frame_at := Counting f rest\<rparr>)))"

definition worker_step :: "bool \<Rightarrow> (nat \<Rightarrow> attempt_env) \<Rightarrow> bool \<Rightarrow> system \<Rightarrow> system" where
  "worker_step img_ok env emit_ok c =
     (case worker_at c of
        Waiting \<Rightarrow>
          (if worker_task (shared c) = None then
             (let s' = worker_get (shared c)
              in c\<lparr>shared := s',
                   worker_at := (if worker_task s' = None then Waiting else Holding)\<rparr>)
           else c)
      | Holding \<Rightarrow>
          (case worker_recognise img_ok env (shared c) of
             (s1, None) \<Rightarrow> c\<lparr>shared := s1\<lparr>worker_task := None\<rparr>, worker_at := Waiting\<rparr>
           | (s1, Some product_name) \<Rightarrow> c\<lparr>shared := s1, worker_at := Labelled product_name\<rparr>)
      | Labelled product_name \<Rightarrow>
          (case worker_task (shared c) of
             None \<Rightarrow> c\<lparr>worker_at := Waiting\<rparr>
           | Some t \<Rightarrow> c\<lparr>shared := worker_write t product_name (shared c),
                          worker_at := Stored product_name\<rparr>)
      | Stored product_name \<Rightarrow>
          c\<lparr>shared := (worker_emit emit_ok product_name (shared c))\<lparr>worker_task := None\<rparr>,
            worker_at := Waiting\<rparr>)"

text \<open>
  A step is a call of \<open>process_frame\<close>, the next block of the frame path, the next
  block of the worker, a resync request or a reconnection attempt.
\<close>

datatype action =
    FrameCall frame
  | FrameStep
  | WorkerStep bool "nat \<Rightarrow> attempt_env" bool
  | Resync
  | Reconnect bool

definition step :: "system \<Rightarrow> action \<Rightarrow> py_error + system" where
  "step c a =
     (case a of
        FrameCall f \<Rightarrow>
          Inr (if frame_at c = Between then c\<lparr>frame_at := Counting f (detections f)\<rparr> else c)
      | FrameStep \<Rightarrow> frame_step c
      | WorkerStep img_ok env emit_ok \<Rightarrow> Inr (worker_step img_ok env emit_ok c)
      | Resync \<Rightarrow> Inr (c\<lparr>shared := on_resync_request (shared c)\<rparr>)
      | Reconnect connect_ok \<Rightarrow> Inr (c\<lparr>shared := retry_connection connect_ok (shared c)\<rparr>))"

text \<open>The states a run passes through; a run ends at an uncaught exception.\<close>

fun states_of :: "system \<Rightarrow> action list \<Rightarrow> system list" where
  "states_of c [] = [c]"
| "states_of c (a # as) =
     c # (case step c a of Inl e \<Rightarrow> [] | Inr c' \<Rightarrow> states_of c' as)"

section \<open>Notions used in the statements\<close>

text \<open>
  Line 229 takes an exception whose text contains \<open>429\<close> as the signal that the
  active backend is out of capacity. \<open>capacity_signals\<close> counts the signals the retry
  loop meets from pass \<open>attempts\<close> on, before the first other outcome or the bound.
\<close>

definition exhausted :: "api_result \<Rightarrow> bool" where
  "exhausted r = (case r of Response text \<Rightarrow> False | ApiError err_msg \<Rightarrow> py_in lit_429 err_msg)"

definition capacity_signals :: "(nat \<Rightarrow> attempt_env) \<Rightarrow> nat \<Rightarrow> nat \<Rightarrow> nat" where
  "capacity_signals env attempts max_retries =
     length (takeWhile (\<lambda>i. exhausted (api (env i))) [attempts..<max_retries])"

definition is_generate :: "call \<Rightarrow> bool" where
  "is_generate c = (case c of Generate m \<Rightarrow> True | _ \<Rightarrow> False)"

definition is_quota_check :: "call \<Rightarrow> bool" where
  "is_quota_check c = (case c of QuotaCheck b \<Rightarrow> True | _ \<Rightarrow> False)"

definition is_emit :: "call \<Rightarrow> bool" where
  "is_emit c = (case c of Emit p \<Rightarrow> True | _ \<Rightarrow> False)"

text \<open>
  A log of calls is gated by capacity when every \<open>generate_content\<close> call in it comes
  directly after a quota check that reported capacity.
\<close>

fun gated_after :: "call \<Rightarrow> call list \<Rightarrow> bool" where
  "gated_after prev [] = True"
| "gated_after prev (c # cs) =
     (if is_generate c then prev = QuotaCheck True \<and> gated_after c cs else gated_after c cs)"

definition capacity_gated :: "call list \<Rightarrow> bool" where
  "capacity_gated cs = (case cs of [] \<Rightarrow> True | c # rest \<Rightarrow> \<not> is_generate c \<and> gated_after c rest)"

text \<open>
  The stage of an id in the registry (absent, pending, sending, done) and the number
  of tasks put on the queue for it so far.
\<close>

definition is_put_for :: "int \<Rightarrow> call \<Rightarrow> bool" where
  "is_put_for k c = (case c of Put t \<Rightarrow> task_id t = k | _ \<Rightarrow> False)"

definition puts :: "int \<Rightarrow> sys \<Rightarrow> nat" where
  "puts k s = length (filter (is_put_for k) (trace s))"

definition stage :: "int \<Rightarrow> sys \<Rightarrow> nat" where
  "stage k s = (case map_of (object_database s) k of
                  None \<Rightarrow> 0
                | Some d \<Rightarrow> (case status d of Pending \<Rightarrow> 1 | Sending \<Rightarrow> 2 | Done \<Rightarrow> 3))"

text \<open>
  An id is never evicted along a sequence of states when no state in which it is
  present is followed by one in which it is absent.
\<close>

fun never_evicted :: "int \<Rightarrow> sys list \<Rightarrow> bool" where
  "never_evicted k (s # s' # rest) =
     ((stage k s = 0 \<or> stage k s' \<noteq> 0) \<and> never_evicted k (s' # rest))"
| "never_evicted k rest = True"

text \<open>
  An entry after one more missing frame, and the calls the eviction loop makes for an
  id, given the entry it finds.
\<close>

definition aged :: "obj \<Rightarrow> obj" where
  "aged d = d\<lparr>missing_count := missing_count d + 1\<rparr>"

definition removal_calls :: "int set \<Rightarrow> bool \<Rightarrow> int \<Rightarrow> obj option \<Rightarrow> call list" where
  "removal_calls cur conn k entry =
     (case entry of
        None \<Rightarrow> []
      | Some d \<Rightarrow> if k \<notin> cur \<and> missing_count d + 1 > MAX_MISSING_FRAMES
                     \<and> removal_announced conn (gemini_name d)
                  then [Emit (Remove_item (gemini_name d))] else [])"

text \<open>The stages of an id along a sequence of states.\<close>

definition stages :: "int \<Rightarrow> system list \<Rightarrow> nat list" where
  "stages k cs = map (\<lambda>c. stage k (shared c)) cs"

text \<open>The frame path has passed the test of line 315 for the id and not yet written.\<close>

definition writing_for :: "int \<Rightarrow> system \<Rightarrow> bool" where
  "writing_for k c = (case frame_at c of Writing f det rest \<Rightarrow> det_id det = k | _ \<Rightarrow> False)"

text \<open>
  The relations between the states before and after a step, for one id: nothing
  changes for it; or the step moves it on, where the frame path standing before the
  write for the id counts as a task already put.
  \<open>frame_steps\<close> runs the frame path alone. A state is well-formed when the box in
  hand has its entry and the registry has distinct keys.
\<close>

definition unchanged_for :: "int \<Rightarrow> system \<Rightarrow> system \<Rightarrow> bool" where
  "unchanged_for k c c' =
     (stage k (shared c') = stage k (shared c) \<and> puts k (shared c') = puts k (shared c)
      \<and> writing_for k c' = writing_for k c)"

definition moves :: "int \<Rightarrow> system \<Rightarrow> system \<Rightarrow> bool" where
  "moves k c c' =
     (let phase = (\<lambda>c. if writing_for k c then 2 else min 2 (stage k (shared c)));
          committed = (\<lambda>c. puts k (shared c) + (if writing_for k c then 1 else 0))
      in min 2 (stage k (shared c)) \<le> min 2 (stage k (shared c'))
         \<and> phase c \<le> phase c'
         \<and> committed c \<le> committed c'
         \<and> committed c' \<le> committed c + (if phase c \<le> 1 \<and> 2 \<le> phase c' then 1 else 0))"

fun frame_steps :: "nat \<Rightarrow> system \<Rightarrow> py_error + system" where
  "frame_steps 0 c = Inr c"
| "frame_steps (Suc n) c = (case frame_step c of Inl e \<Rightarrow> Inl e | Inr c' \<Rightarrow> frame_steps n c')"

definition box_entered :: "system \<Rightarrow> bool" where
  "box_entered c =
     (case frame_at c of
        Testing f det rest \<Rightarrow> map_of (object_database (shared c)) (det_id det) \<noteq> None
      | Writing f det rest \<Rightarrow> map_of (object_database (shared c)) (det_id det) \<noteq> None
      | _ \<Rightarrow> True)"

definition well_formed :: "system \<Rightarrow> bool" where
  "well_formed c = (box_entered c \<and> distinct (map fst (object_database (shared c))))"

section \<open>Example inputs\<close>

text \<open>
  The state after start-up with two usable models, and the inputs at which the
  theorems below are evaluated.
\<close>

definition sys0 :: sys where
  "sys0 =
     \<lparr>object_database = [], task_queue = [], api_history = [], is_connected = True,
      valid_models = [ascii ''gemini-2.5-flash'', ascii ''gemini-1.5-flash''],
      current_model_index = 0, model_name = ascii ''gemini-2.5-flash'',
      worker_task = None, trace = []\<rparr>"

definition bottle :: obj where
  "bottle = \<lparr>yolo_name = ascii ''bottle'', gemini_name = [], status = Pending,
             frame_count = 20, missing_count = 0\<rparr>"

definition box7 :: detection where
  "box7 = \<lparr>det_id = 7, det_x1 = 10, det_y1 = 20, det_x2 = 110, det_y2 = 120,
           det_name = ascii ''bottle'', det_clock_gate = 100, det_clock_reserve = 101\<rparr>"

definition quota_full :: sys where
  "quota_full = sys0\<lparr>api_history := [96, 97, 98, 99, 100]\<rparr>"

definition env_cola :: "nat \<Rightarrow> attempt_env" where
  "env_cola n = \<lparr>clock_check = 101, api = Response (ascii ''Cola''), clock_record = 107\<rparr>"

definition env_429_then_ok :: "nat \<Rightarrow> attempt_env" where
  "env_429_then_ok n =
     (if n = 0
      then \<lparr>clock_check = 101, api = ApiError (ascii ''429 Resource exhausted''), clock_record = 0\<rparr>
      else \<lparr>clock_check = 107, api = Response (ascii ''Cola''), clock_record = 108\<rparr>)"

definition stale_task :: task where
  "stale_task = \<lparr>task_id = 7, task_crop = (20, 120, 10, 110), task_hint = ascii ''bottle''\<rparr>"

definition can :: obj where
  "can = \<lparr>yolo_name = ascii ''cup'', gemini_name = lit_thinking_dots, status = Sending,
          frame_count = 40, missing_count = 3\<rparr>"

definition done_obj :: "pystr \<Rightarrow> obj" where
  "done_obj name = \<lparr>yolo_name = ascii ''bottle'', gemini_name = name, status = Done,
                    frame_count = 50, missing_count = 0\<rparr>"

definition three_done :: "(int \<times> obj) list" where
  "three_done = [(1, done_obj (ascii ''CoffeeCo'')), (2, done_obj (ascii ''iPhone 15'')),
                 (3, done_obj lit_api_error)]"

definition env_fail_word :: "nat \<Rightarrow> attempt_env" where
  "env_fail_word n = \<lparr>clock_check = 101, api = Response (ascii ''Fail '' @ lit_failed), clock_record = 107\<rparr>"

definition gone :: obj where
  "gone = \<lparr>yolo_name = ascii ''bottle'', gemini_name = ascii ''CoffeeCo'', status = Done,
           frame_count = 25, missing_count = 30\<rparr>"

definition empty_frame :: frame where
  "empty_frame = \<lparr>frame_h = 480, frame_w = 640, detections = []\<rparr>"

definition frame7 :: frame where
  "frame7 = \<lparr>frame_h = 480, frame_w = 640, detections = [box7]\<rparr>"

definition leaving :: obj where
  "leaving = \<lparr>yolo_name = ascii ''bottle'', gemini_name = lit_thinking_dots, status = Sending,
              frame_count = 25, missing_count = 30\<rparr>"

definition left_over_start :: system where
  "left_over_start =
     \<lparr>shared = sys0\<lparr>object_database := [(7, leaving)], worker_task := Some stale_task\<rparr>,
      frame_at = Between, worker_at = Holding\<rparr>"

definition left_over_actions :: "action list" where
  "left_over_actions =
     [FrameCall empty_frame, FrameStep, FrameCall frame7, FrameStep, FrameStep, FrameStep,
      WorkerStep True env_cola True, WorkerStep True env_cola True]"

definition race_start :: system where
  "race_start =
     \<lparr>shared = sys0\<lparr>object_database := [(7, bottle)], worker_task := Some stale_task\<rparr>,
      frame_at = Between, worker_at = Labelled (ascii ''Cola'')\<rparr>"

definition race_actions :: "action list" where
  "race_actions =
     [FrameCall frame7, FrameStep, FrameStep, WorkerStep True env_cola True, FrameStep]"

definition run_start :: system where
  "run_start =
     \<lparr>shared = sys0\<lparr>object_database := [(7, bottle), (8, can)]\<rparr>,
      frame_at = Between, worker_at = Waiting\<rparr>"

definition run_actions :: "action list" where
  "run_actions =
     [FrameCall frame7, FrameStep, FrameStep, FrameStep, FrameStep,
      WorkerStep True env_cola True, WorkerStep True env_cola True,
      WorkerStep True env_cola True, WorkerStep True env_cola True]"

definition at_test :: system where
  "at_test =
     \<lparr>shared = sys0\<lparr>object_database := [(7, bottle\<lparr>frame_count := 21\<rparr>)]\<rparr>,
      frame_at = Testing frame7 box7 [], worker_at = Waiting\<rparr>"

definition at_write :: system where
  "at_write =
     \<lparr>shared = sys0\<lparr>object_database := [(7, bottle\<lparr>frame_count := 21\<rparr>)],
                   api_history := [101], trace := [QuotaCheck True]\<rparr>,
      frame_at = Writing frame7 box7 [], worker_at = Waiting\<rparr>"

definition after_write :: system where
  "after_write =
     \<lparr>shared = sys0\<lparr>object_database :=
                     [(7, bottle\<lparr>frame_count := 21, status := Sending,
                                 gemini_name := lit_thinking_dots\<rparr>)],
                   api_history := [101], task_queue := [stale_task],
                   trace := [QuotaCheck True, Put stale_task]\<rparr>,
      frame_at = Counting frame7 [], worker_at = Waiting\<rparr>"

section \<open>Properties\<close>

subsection \<open>The quota tracker\<close>

text \<open>
  Claim C3. \<open>check_api_quota\<close> keeps exactly the timestamps less than 60 seconds
  old, so every timestamp older than 60 seconds is discarded; it answers true iff
  fewer than \<open>MAX_RPM\<close> timestamps remain. Hence it never reports capacity when
  \<open>MAX_RPM\<close> or more calls lie in the trailing window \<open>0 \<le> now - t < 60\<close>, and its
  answer is the same with the timestamps older than 60 seconds taken away beforehand.
\<close>

theorem check_api_quota_window:
  assumes "check_api_quota now s = (ok, s')"
  shows "api_history s' = filter (\<lambda>t. now - t < 60) (api_history s)
       \<and> (\<forall>t \<in> set (api_history s). 60 < now - t \<longrightarrow> t \<notin> set (api_history s'))
       \<and> (ok \<longleftrightarrow> int (length (api_history s')) < MAX_RPM)
       \<and> (MAX_RPM \<le> int (length (filter (\<lambda>t. 0 \<le> now - t \<and> now - t < 60) (api_history s)))
            \<longrightarrow> \<not> ok)
       \<and> fst (check_api_quota now
                 (s\<lparr>api_history := filter (\<lambda>t. \<not> 60 < now - t) (api_history s)\<rparr>)) = ok"
proof -
  let ?h = "filter (\<lambda>t. now - t < 60) (api_history s)"
  from assms have h: "api_history s' = ?h" and ok: "ok = (int (length ?h) < MAX_RPM)"
    by (auto simp: check_api_quota_def Let_def)
  have sub: "length (filter (\<lambda>t. 0 \<le> now - t \<and> now - t < 60) (api_history s)) \<le> length ?h"
  proof -
    have "filter (\<lambda>t. 0 \<le> now - t \<and> now - t < 60) (api_history s)
            = filter (\<lambda>t. 0 \<le> now - t) ?h"
      by (simp add: conj_commute)
    then show ?thesis by (metis length_filter_le)
  qed
  have same: "filter (\<lambda>t. now - t < 60) (filter (\<lambda>t. \<not> 60 < now - t) (api_history s)) = ?h"
    by (auto intro: filter_cong)
  show ?thesis
    using h ok sub same by (auto simp: check_api_quota_def Let_def)
qed

theorem check_api_quota_window_witness:
  "check_api_quota 100 (sys0\<lparr>api_history := [10, 39, 41, 95, 99]\<rparr>)
     = (True, sys0\<lparr>api_history := [41, 95, 99], trace := [QuotaCheck True]\<rparr>)
   \<and> (10::real) \<notin> set [41, 95, 99]"
  using check_api_quota_window [of 100 "sys0\<lparr>api_history := [10, 39, 41, 95, 99]\<rparr>" True
      "sys0\<lparr>api_history := [41, 95, 99], trace := [QuotaCheck True]\<rparr>"]
  by (simp add: check_api_quota_def sys0_def MAX_RPM_def)

subsection \<open>The dispatch gate\<close>

text \<open>
  Claim C2. While a box is handled, its object goes from pending to sending, a task
  for it is put on the queue and a timestamp is appended to the quota history
  exactly when the object is pending, its frame count (after this frame's increment)
  exceeds \<open>STABILITY_FRAMES\<close>, the box is more than 80 wide and more than 80 high,
  and \<open>check_api_quota\<close> reports capacity. Otherwise the object keeps its status,
  nothing is put on the queue and no timestamp is added.
\<close>

theorem dispatch_gate:
  "(let d0 = (case map_of (object_database s) (det_id det) of
                None \<Rightarrow> new_object (det_name det) | Some d \<Rightarrow> d);
        counted = d0\<lparr>missing_count := 0, frame_count := frame_count d0 + 1\<rparr>;
        gate = (status d0 = Pending \<and> frame_count counted > STABILITY_FRAMES
                \<and> det_x2 det - det_x1 det > 80 \<and> det_y2 det - det_y1 det > 80
                \<and> fst (check_api_quota (det_clock_gate det) s));
        t = \<lparr>task_id = det_id det, task_crop = crop_bounds h w det, task_hint = det_name det\<rparr>;
        s' = track_detection h w det s
    in (gate \<longrightarrow>
          map_of (object_database s') (det_id det)
            = Some (counted\<lparr>status := Sending, gemini_name := lit_thinking_dots\<rparr>)
          \<and> task_queue s' = task_queue s @ [t]
          \<and> api_history s'
            = filter (\<lambda>x. det_clock_gate det - x < 60) (api_history s) @ [det_clock_reserve det]
          \<and> filter (\<lambda>c. c = Put t) (drop (length (trace s)) (trace s')) = [Put t])
     \<and> (\<not> gate \<longrightarrow>
          map_of (object_database s') (det_id det) = Some counted
          \<and> status counted = status d0
          \<and> task_queue s' = task_queue s
          \<and> set (api_history s') \<subseteq> set (api_history s)
          \<and> (\<forall>c \<in> set (drop (length (trace s)) (trace s')). \<forall>t'. c \<noteq> Put t')))"
  by (auto simp: track_detection_def check_api_quota_def Let_def AList.update_conv'
      split: option.splits)

theorem dispatch_gate_witness:
  "map_of (object_database (track_detection 480 640 box7 (sys0\<lparr>object_database := [(7, bottle)]\<rparr>))) 7
     = Some (bottle\<lparr>frame_count := 21, status := Sending, gemini_name := lit_thinking_dots\<rparr>)
   \<and> task_queue (track_detection 480 640 box7 (sys0\<lparr>object_database := [(7, bottle)]\<rparr>))
     = [\<lparr>task_id = 7, task_crop = (20, 120, 10, 110), task_hint = ascii ''bottle''\<rparr>]"
  using dispatch_gate [where s = "sys0\<lparr>object_database := [(7, bottle)]\<rparr>" and det = box7
      and h = 480 and w = 640]
  by (simp add: sys0_def bottle_def box7_def check_api_quota_def crop_bounds_def
        STABILITY_FRAMES_def MAX_RPM_def Let_def)

subsection \<open>The retry loop\<close>

lemma attempt_frame:
  "object_database (fst (attempt e s)) = object_database s"
  "task_queue (fst (attempt e s)) = task_queue s"
  "is_connected (fst (attempt e s)) = is_connected s"
  "valid_models (fst (attempt e s)) = valid_models s"
  "worker_task (fst (attempt e s)) = worker_task s"
  by (auto simp: attempt_def check_api_quota_def switch_next_model_def Let_def
      split: api_result.splits)

lemma attempt_outcome:
  "valid_models s \<noteq> [] \<Longrightarrow>
   snd (attempt e s) = (case api e of Response text \<Rightarrow> Stop text
                        | ApiError err_msg \<Rightarrow> if py_in lit_429 err_msg then Again else Stop lit_api_error)"
  by (auto simp: attempt_def check_api_quota_def switch_next_model_def Let_def
      split: api_result.splits)

lemma attempt_index:
  "valid_models s \<noteq> [] \<Longrightarrow>
   current_model_index (fst (attempt e s))
     = (if exhausted (api e) then (current_model_index s + 1) mod length (valid_models s)
        else current_model_index s)"
  "valid_models s \<noteq> [] \<Longrightarrow> exhausted (api e) \<Longrightarrow>
   model_name (fst (attempt e s)) = valid_models s ! current_model_index (fst (attempt e s))"
  "\<not> exhausted (api e) \<Longrightarrow> model_name (fst (attempt e s)) = model_name s"
  by (auto simp: attempt_def check_api_quota_def switch_next_model_def Let_def exhausted_def
      split: api_result.splits)

lemma attempt_trace:
  "trace (fst (attempt e s))
     = trace s @ [QuotaCheck (fst (check_api_quota (clock_check e) s))]
         @ (if fst (check_api_quota (clock_check e) s) then [] else [Sleep 5])
         @ [Generate (model_name s)]
         @ (if exhausted (api e) then [Sleep 5] else [])"
  by (auto simp: attempt_def check_api_quota_def switch_next_model_def Let_def exhausted_def
      split: api_result.splits)

lemma attempt_Again_iff:
  "valid_models s \<noteq> [] \<Longrightarrow> snd (attempt e s) = Again \<longleftrightarrow> exhausted (api e)"
  by (auto simp: attempt_outcome exhausted_def split: api_result.splits)

lemma attempt_not_Raised:
  "valid_models s \<noteq> [] \<Longrightarrow> snd (attempt e s) \<noteq> Raised er"
  by (auto simp: attempt_outcome split: api_result.splits)

lemma retry_loop_exit: "\<not> a < m \<Longrightarrow> retry_loop env m a pn s = (s, Inr pn)"
  by (simp add: retry_loop.simps)

lemma retry_loop_again:
  "a < m \<Longrightarrow> valid_models s \<noteq> [] \<Longrightarrow> exhausted (api (env a)) \<Longrightarrow>
   retry_loop env m a pn s = retry_loop env m (Suc a) pn (fst (attempt (env a) s))"
  using attempt_Again_iff [of s "env a"]
  by (cases "attempt (env a) s") (simp add: retry_loop.simps [of env m a pn s])

lemma retry_loop_stop:
  "a < m \<Longrightarrow> valid_models s \<noteq> [] \<Longrightarrow> \<not> exhausted (api (env a)) \<Longrightarrow>
   retry_loop env m a pn s
     = (fst (attempt (env a) s),
        Inr (case api (env a) of Response text \<Rightarrow> text | ApiError err_msg \<Rightarrow> lit_api_error))"
  using attempt_outcome [of s "env a"]
  by (cases "attempt (env a) s")
     (auto simp: retry_loop.simps [of env m a pn s] exhausted_def split: api_result.splits)

lemma capacity_signals_unfold:
  "a < m \<Longrightarrow> capacity_signals env a m
     = (if exhausted (api (env a)) then Suc (capacity_signals env (Suc a) m) else 0)"
  by (simp add: capacity_signals_def upt_conv_Cons)

lemma capacity_signals_exit: "\<not> a < m \<Longrightarrow> capacity_signals env a m = 0"
  by (simp add: capacity_signals_def)

lemma capacity_signals_le: "capacity_signals env a m \<le> m - a"
  unfolding capacity_signals_def
  by (metis length_takeWhile_le length_upt)

text \<open>Induction over the passes of the loop.\<close>

lemma retry_loop_induct [consumes 1, case_names exit stop again]:
  assumes vm: "valid_models s \<noteq> []"
    and exit: "\<And>a s. valid_models s \<noteq> [] \<Longrightarrow> \<not> a < m \<Longrightarrow> P a s"
    and stop: "\<And>a s. valid_models s \<noteq> [] \<Longrightarrow> a < m \<Longrightarrow> \<not> exhausted (api (env a)) \<Longrightarrow> P a s"
    and again: "\<And>a s. valid_models s \<noteq> [] \<Longrightarrow> a < m \<Longrightarrow> exhausted (api (env a))
                 \<Longrightarrow> P (Suc a) (fst (attempt (env a) s)) \<Longrightarrow> P a s"
  shows "P a s"
  using vm
proof (induction "m - a" arbitrary: a s)
  case 0
  then show ?case using exit by simp
next
  case (Suc n)
  then have lt: "a < m" by simp
  show ?case
  proof (cases "exhausted (api (env a))")
    case False
    with Suc.prems lt show ?thesis using stop by simp
  next
    case True
    have "P (Suc a) (fst (attempt (env a) s))"
      using Suc.hyps(1) [of "Suc a" "fst (attempt (env a) s)"] Suc.hyps(2) Suc.prems
      by (simp add: attempt_frame)
    with Suc.prems lt True show ?thesis using again by simp
  qed
qed

lemma retry_loop_frame:
  assumes "valid_models s \<noteq> []"
  shows "object_database (fst (retry_loop env m a pn s)) = object_database s
   \<and> task_queue (fst (retry_loop env m a pn s)) = task_queue s
   \<and> is_connected (fst (retry_loop env m a pn s)) = is_connected s
   \<and> valid_models (fst (retry_loop env m a pn s)) = valid_models s
   \<and> worker_task (fst (retry_loop env m a pn s)) = worker_task s
   \<and> (\<exists>l. snd (retry_loop env m a pn s) = Inr l)"
  using assms
proof (induction a s rule: retry_loop_induct [where m = m and env = env])
  case (exit a s)
  then show ?case by (simp add: retry_loop_exit)
next
  case (stop a s)
  then show ?case by (simp add: retry_loop_stop attempt_frame)
next
  case (again a s)
  then show ?case by (simp add: retry_loop_again attempt_frame)
qed

lemma retry_loop_index:
  assumes "valid_models s \<noteq> []" "current_model_index s < length (valid_models s)"
  shows "current_model_index (fst (retry_loop env m a pn s))
           = (current_model_index s + capacity_signals env a m) mod length (valid_models s)"
  using assms
proof (induction a s rule: retry_loop_induct [where m = m and env = env])
  case (exit a s)
  then show ?case by (simp add: retry_loop_exit capacity_signals_exit)
next
  case (stop a s)
  then show ?case by (simp add: retry_loop_stop attempt_index capacity_signals_unfold)
next
  case (again a s)
  then show ?case
    by (simp add: retry_loop_again attempt_index attempt_frame capacity_signals_unfold mod_simps)
qed

subsection \<open>Backend rotation\<close>

text \<open>
  Claim C5. \<open>switch_next_model\<close> moves the index to the next backend and from the
  last backend back to 0. The retry loop calls it once for each capacity signal
  (an exception whose text contains \<open>429\<close>) it receives and at no other point: after
  the loop the index is the old one advanced, modulo the number of backends, by the
  number of signals received; a pass that ends in any other outcome makes its one
  call and leaves the loop with the index and the model as they were.
\<close>

theorem rotation_advances_per_signal:
  assumes "current_model_index s < length (valid_models s)"
  shows "switch_next_model s
           = Inr (s\<lparr>current_model_index :=
                       (if Suc (current_model_index s) = length (valid_models s) then 0
                        else Suc (current_model_index s)),
                    model_name :=
                       valid_models s ! (if Suc (current_model_index s) = length (valid_models s) then 0
                                         else Suc (current_model_index s))\<rparr>)
       \<and> current_model_index (fst (retry_loop env max_retries attempts pn s))
           = (current_model_index s + capacity_signals env attempts max_retries)
               mod length (valid_models s)
       \<and> (attempts < max_retries \<and> \<not> exhausted (api (env attempts)) \<longrightarrow>
            current_model_index (fst (retry_loop env max_retries attempts pn s)) = current_model_index s
            \<and> model_name (fst (retry_loop env max_retries attempts pn s)) = model_name s
            \<and> length (filter is_generate
                 (drop (length (trace s)) (trace (fst (retry_loop env max_retries attempts pn s))))) = 1)
       \<and> (attempts < max_retries \<and> exhausted (api (env attempts)) \<longrightarrow>
            retry_loop env max_retries attempts pn s
              = retry_loop env max_retries (Suc attempts) pn (fst (attempt (env attempts) s))
            \<and> current_model_index (fst (attempt (env attempts) s))
                = (current_model_index s + 1) mod length (valid_models s))"
proof -
  from assms have vm: "valid_models s \<noteq> []" by auto
  have sw: "(current_model_index s + 1) mod length (valid_models s)
      = (if Suc (current_model_index s) = length (valid_models s) then 0
         else Suc (current_model_index s))"
    using assms by (auto simp: mod_Suc)
  have 1: "switch_next_model s
           = Inr (s\<lparr>current_model_index :=
                       (if Suc (current_model_index s) = length (valid_models s) then 0
                        else Suc (current_model_index s)),
                    model_name :=
                       valid_models s ! (if Suc (current_model_index s) = length (valid_models s) then 0
                                         else Suc (current_model_index s))\<rparr>)"
    using vm sw by (simp add: switch_next_model_def Let_def)
  have 2: "current_model_index (fst (retry_loop env max_retries attempts pn s))
           = (current_model_index s + capacity_signals env attempts max_retries)
               mod length (valid_models s)"
    using retry_loop_index [OF vm assms] .
  have 3: "attempts < max_retries \<and> \<not> exhausted (api (env attempts)) \<longrightarrow>
            current_model_index (fst (retry_loop env max_retries attempts pn s)) = current_model_index s
            \<and> model_name (fst (retry_loop env max_retries attempts pn s)) = model_name s
            \<and> length (filter is_generate
                 (drop (length (trace s)) (trace (fst (retry_loop env max_retries attempts pn s))))) = 1"
    using vm by (simp add: retry_loop_stop attempt_index attempt_trace is_generate_def)
  have 4: "attempts < max_retries \<and> exhausted (api (env attempts)) \<longrightarrow>
            retry_loop env max_retries attempts pn s
              = retry_loop env max_retries (Suc attempts) pn (fst (attempt (env attempts) s))
            \<and> current_model_index (fst (attempt (env attempts) s))
                = (current_model_index s + 1) mod length (valid_models s)"
    using vm by (simp add: retry_loop_again attempt_index)
  from 1 2 3 4 show ?thesis by blast
qed

theorem rotation_advances_per_signal_witness:
  "current_model_index sys0 < length (valid_models sys0)
   \<and> current_model_index (fst (retry_loop env_429_then_ok 2 0 lit_recognition_failed sys0)) = 1
   \<and> switch_next_model (sys0\<lparr>current_model_index := 1\<rparr>)
       = Inr (sys0\<lparr>current_model_index := 0, model_name := ascii ''gemini-2.5-flash''\<rparr>)"
proof -
  have h: "current_model_index sys0 < length (valid_models sys0)"
    by (simp add: sys0_def)
  have cs: "capacity_signals env_429_then_ok 0 2 = 1"
    by (simp add: capacity_signals_unfold env_429_then_ok_def exhausted_def lit_429_def ascii_def)
  from rotation_advances_per_signal [OF h, of env_429_then_ok 2 0 lit_recognition_failed]
  have "current_model_index (fst (retry_loop env_429_then_ok 2 0 lit_recognition_failed sys0))
          = (current_model_index sys0 + capacity_signals env_429_then_ok 0 2)
              mod length (valid_models sys0)"
    by blast
  then have a: "current_model_index (fst (retry_loop env_429_then_ok 2 0 lit_recognition_failed sys0)) = 1"
    using cs by (simp add: sys0_def)
  have b: "switch_next_model (sys0\<lparr>current_model_index := 1\<rparr>)
       = Inr (sys0\<lparr>current_model_index := 0, model_name := ascii ''gemini-2.5-flash''\<rparr>)"
    by (simp add: switch_next_model_def sys0_def Let_def)
  from h a b show ?thesis by blast
qed

subsection \<open>Waiting for capacity\<close>

lemma retry_loop_calls:
  assumes "valid_models s \<noteq> []"
  shows "\<exists>calls. trace (fst (retry_loop env m a pn s)) = trace s @ calls
           \<and> (a < m \<longrightarrow>
                (\<exists>rest. calls = QuotaCheck (fst (check_api_quota (clock_check (env a)) s))
                           # (if fst (check_api_quota (clock_check (env a)) s) then [] else [Sleep 5])
                           @ Generate (model_name s) # rest))
           \<and> length (filter is_generate calls) = length (filter is_quota_check calls)
           \<and> length (filter is_generate calls) = min (m - a) (capacity_signals env a m + 1)
           \<and> filter is_emit calls = []"
  using assms
proof (induction a s rule: retry_loop_induct [where m = m and env = env])
  case (exit a s)
  then show ?case by (simp add: retry_loop_exit)
next
  case (stop a s)
  then show ?case
    by (simp add: retry_loop_stop attempt_trace capacity_signals_unfold
        is_generate_def is_quota_check_def is_emit_def)
next
  case (again a s)
  then obtain calls where c: "trace (fst (retry_loop env m (Suc a) pn (fst (attempt (env a) s))))
      = trace (fst (attempt (env a) s)) @ calls"
    and g: "length (filter is_generate calls) = length (filter is_quota_check calls)"
    and n: "length (filter is_generate calls) = min (m - Suc a) (capacity_signals env (Suc a) m + 1)"
    and e: "filter is_emit calls = []"
    by blast
  let ?ok = "fst (check_api_quota (clock_check (env a)) s)"
  let ?head = "QuotaCheck ?ok # (if ?ok then [] else [Sleep 5]) @ Generate (model_name s) # Sleep 5 # calls"
  have "trace (fst (retry_loop env m a pn s)) = trace s @ ?head"
    using again.hyps c by (simp add: retry_loop_again attempt_trace)
  moreover have "length (filter is_generate ?head) = length (filter is_quota_check ?head)"
    using g by (simp add: is_generate_def is_quota_check_def)
  moreover have "length (filter is_generate ?head) = min (m - a) (capacity_signals env a m + 1)"
    using n again.hyps by (simp add: is_generate_def capacity_signals_unfold) 
  moreover have "filter is_emit ?head = []"
    using e by (simp add: is_emit_def)
  ultimately show ?case by blast
qed

text \<open>
  Claim C4 as stated, that after the pause the worker checks capacity again and never
  calls the backend while the quota check reports no capacity, fails. With five calls
  recorded at times 96 to 100 and the check made at time 101, the check reports no
  capacity, the worker pauses 5 seconds and calls the backend; no check lies between
  the pause and the call, and a check at time 106 would still report no capacity.
\<close>

theorem backend_called_without_capacity:
  "\<not> fst (check_api_quota 101 quota_full)
   \<and> trace (fst (retry_loop env_cola (length (valid_models quota_full)) 0 lit_recognition_failed quota_full))
       = [QuotaCheck False, Sleep 5, Generate (ascii ''gemini-2.5-flash'')]
   \<and> \<not> fst (check_api_quota 106 (snd (check_api_quota 101 quota_full)))
   \<and> \<not> capacity_gated
         (trace (fst (retry_loop env_cola (length (valid_models quota_full)) 0 lit_recognition_failed quota_full)))"
proof -
  have vm: "valid_models quota_full \<noteq> []" and len: "0 < length (valid_models quota_full)"
    by (simp_all add: quota_full_def sys0_def)
  have ne: "\<not> exhausted (api (env_cola 0))"
    by (simp add: env_cola_def exhausted_def)
  have tr: "trace (fst (retry_loop env_cola (length (valid_models quota_full)) 0 lit_recognition_failed quota_full))
       = [QuotaCheck False, Sleep 5, Generate (ascii ''gemini-2.5-flash'')]"
  proof -
    have "retry_loop env_cola (length (valid_models quota_full)) 0 lit_recognition_failed quota_full
            = (fst (attempt (env_cola 0) quota_full),
               Inr (case api (env_cola 0) of Response text \<Rightarrow> text | ApiError err_msg \<Rightarrow> lit_api_error))"
      using len vm ne by (rule retry_loop_stop)
    then show ?thesis
      by (simp add: attempt_trace ne)
         (simp add: quota_full_def sys0_def env_cola_def check_api_quota_def MAX_RPM_def)
  qed
  show ?thesis
    unfolding tr
    by (simp add: quota_full_def sys0_def check_api_quota_def MAX_RPM_def capacity_gated_def
        is_generate_def)
qed

text \<open>
  Claim C4, amended. In every pass through the retry loop the quota is checked once;
  when the check reports no capacity the worker pauses 5 seconds once and then calls
  the backend without checking again. The pause does not count as an attempt: there
  are as many backend calls as quota checks, and their number is fixed by the
  capacity signals received alone, at most one call per backend.
\<close>

theorem quota_wait_then_call:
  assumes "valid_models s \<noteq> []" and "attempts < max_retries"
  shows "(let ok = fst (check_api_quota (clock_check (env attempts)) s);
              calls = drop (length (trace s))
                        (trace (fst (retry_loop env max_retries attempts pn s)))
          in (\<exists>rest. calls = QuotaCheck ok # (if ok then [] else [Sleep 5])
                               @ Generate (model_name s) # rest)
             \<and> length (filter is_generate calls) = length (filter is_quota_check calls)
             \<and> length (filter is_generate calls)
                 = min (max_retries - attempts) (capacity_signals env attempts max_retries + 1))"
proof -
  from retry_loop_calls [OF assms(1), of env max_retries attempts pn] assms(2)
  obtain calls where c: "trace (fst (retry_loop env max_retries attempts pn s)) = trace s @ calls"
    and h: "\<exists>rest. calls = QuotaCheck (fst (check_api_quota (clock_check (env attempts)) s))
                           # (if fst (check_api_quota (clock_check (env attempts)) s) then [] else [Sleep 5])
                           @ Generate (model_name s) # rest"
    and g: "length (filter is_generate calls) = length (filter is_quota_check calls)"
    and n: "length (filter is_generate calls)
              = min (max_retries - attempts) (capacity_signals env attempts max_retries + 1)"
    by blast
  from c have d: "drop (length (trace s)) (trace (fst (retry_loop env max_retries attempts pn s))) = calls"
    by simp
  show ?thesis unfolding Let_def d using h g n by blast
qed

theorem quota_wait_then_call_witness:
  "valid_models quota_full \<noteq> [] \<and> (0::nat) < 2
   \<and> take 3 (drop (length (trace quota_full))
               (trace (fst (retry_loop env_cola 2 0 lit_recognition_failed quota_full))))
       = [QuotaCheck False, Sleep 5, Generate (ascii ''gemini-2.5-flash'')]
   \<and> length (filter is_generate
        (drop (length (trace quota_full))
           (trace (fst (retry_loop env_cola 2 0 lit_recognition_failed quota_full))))) = 1"
proof -
  have vm: "valid_models quota_full \<noteq> []" by (simp add: quota_full_def sys0_def)
  have lt: "(0::nat) < 2" by simp
  have cs: "capacity_signals env_cola 0 2 = 0"
    by (simp add: capacity_signals_unfold env_cola_def exhausted_def)
  have ok: "fst (check_api_quota (clock_check (env_cola 0)) quota_full) = False"
    by (simp add: quota_full_def sys0_def env_cola_def check_api_quota_def MAX_RPM_def)
  have mn: "model_name quota_full = ascii ''gemini-2.5-flash''"
    by (simp add: quota_full_def sys0_def)
  let ?calls = "drop (length (trace quota_full))
                  (trace (fst (retry_loop env_cola 2 0 lit_recognition_failed quota_full)))"
  from quota_wait_then_call [OF vm lt, of env_cola lit_recognition_failed]
  have a: "\<exists>rest. ?calls = QuotaCheck False # [Sleep 5] @ Generate (ascii ''gemini-2.5-flash'') # rest"
    and c: "length (filter is_generate ?calls) = 1"
    unfolding Let_def ok cs mn by simp_all
  from a have "take 3 ?calls = [QuotaCheck False, Sleep 5, Generate (ascii ''gemini-2.5-flash'')]"
    by auto
  with vm lt c show ?thesis by blast
qed

subsection \<open>The substring test\<close>

lemma starts_with_iff: "starts_with n h \<longleftrightarrow> (\<exists>q. h = n @ q)"
  by (induction n h rule: starts_with.induct) auto

lemma py_in_iff: "py_in n h \<longleftrightarrow> (\<exists>p q. h = p @ n @ q)"
proof (induction h)
  case Nil
  then show ?case by auto
next
  case (Cons x xs)
  show ?case
  proof
    assume "py_in n (x # xs)"
    then consider "starts_with n (x # xs)" | "py_in n xs" by auto
    then show "\<exists>p q. x # xs = p @ n @ q"
    proof cases
      case 1
      then obtain q where "x # xs = n @ q" by (auto simp: starts_with_iff)
      then have "x # xs = [] @ n @ q" by simp
      then show ?thesis by blast
    next
      case 2
      with Cons obtain p q where "xs = p @ n @ q" by auto
      then have "x # xs = (x # p) @ n @ q" by simp
      then show ?thesis by blast
    qed
  next
    assume "\<exists>p q. x # xs = p @ n @ q"
    then obtain p q where pq: "x # xs = p @ n @ q" by auto
    show "py_in n (x # xs)"
    proof (cases p)
      case Nil
      with pq have "starts_with n (x # xs)" by (auto simp: starts_with_iff)
      then show ?thesis by simp
    next
      case (Cons y ys)
      with pq have "xs = ys @ n @ q" by simp
      with Cons.IH have "py_in n xs" by auto
      then show ?thesis by simp
    qed
  qed
qed

subsection \<open>The worker\<close>

lemma worker_loop_frame:
  "object_database (fst (retry_loop env (length (valid_models s)) 0 pn s)) = object_database s
   \<and> task_queue (fst (retry_loop env (length (valid_models s)) 0 pn s)) = task_queue s
   \<and> is_connected (fst (retry_loop env (length (valid_models s)) 0 pn s)) = is_connected s
   \<and> valid_models (fst (retry_loop env (length (valid_models s)) 0 pn s)) = valid_models s
   \<and> worker_task (fst (retry_loop env (length (valid_models s)) 0 pn s)) = worker_task s
   \<and> (\<exists>l. snd (retry_loop env (length (valid_models s)) 0 pn s) = Inr l)"
proof (cases "valid_models s = []")
  case True
  then show ?thesis by (simp add: retry_loop_exit)
next
  case False
  then show ?thesis by (rule retry_loop_frame)
qed

lemma worker_loop_calls:
  "\<exists>calls. trace (fst (retry_loop env (length (valid_models s)) 0 pn s)) = trace s @ calls
     \<and> filter is_emit calls = []"
proof (cases "valid_models s = []")
  case True
  then show ?thesis by (simp add: retry_loop_exit)
next
  case False
  from retry_loop_calls [OF this, of env "length (valid_models s)" 0 pn]
  show ?thesis by blast
qed

text \<open>What \<open>worker_finish\<close> does, given the label the retry loop ends with.\<close>

lemma worker_finish_eq:
  assumes "worker_task s = Some t"
    and "retry_loop env (length (valid_models s)) 0 lit_recognition_failed s = (s1, Inr l)"
  shows "worker_finish True env emit_ok s
     = s1\<lparr>object_database :=
            (case map_of (object_database s) (task_id t) of
               None \<Rightarrow> object_database s
             | Some d \<Rightarrow> AList.update (task_id t) (d\<lparr>gemini_name := l, status := Done\<rparr>)
                          (object_database s)),
          trace := trace s1 @ (if result_announced (is_connected s) l
                               then [Emit (Detect_item l)] else []),
          is_connected := (if result_announced (is_connected s) l \<and> \<not> emit_ok then False
                           else is_connected s),
          worker_task := None\<rparr>"
proof -
  from worker_loop_frame [of env s lit_recognition_failed] assms(2)
  have fr: "object_database s1 = object_database s" "is_connected s1 = is_connected s"
    by simp_all
  show ?thesis
    using assms fr
    by (cases "map_of (object_database s) (task_id t)")
       (auto simp: worker_finish_def Let_def)
qed

text \<open>
  Claim C9. A task whose id is not in the registry when it is taken from the queue is
  dropped: the run of the worker on it changes nothing but the queue. When the id has
  left the registry by the time the result is written back, the registry is left as it
  is. Only when the id is present is its entry given the label and the status done,
  and no other entry is touched.
\<close>

theorem worker_leaves_absent_ids:
  "(task_queue s = t # rest \<and> map_of (object_database s) (task_id t) = None \<longrightarrow>
      worker_get s = s\<lparr>task_queue := rest\<rparr>)
   \<and> (worker_task s = None \<and> task_queue s = t # rest
        \<and> map_of (object_database s) (task_id t) = None \<longrightarrow>
      worker_finish img_ok env emit_ok (worker_get s) = s\<lparr>task_queue := rest\<rparr>)
   \<and> (worker_task s = Some t \<and> map_of (object_database s) (task_id t) = None \<longrightarrow>
      object_database (worker_finish img_ok env emit_ok s) = object_database s)
   \<and> (worker_task s = Some t \<and> map_of (object_database s) (task_id t) = Some d \<longrightarrow>
      (\<exists>l. snd (retry_loop env (length (valid_models s)) 0 lit_recognition_failed s) = Inr l
         \<and> map_of (object_database (worker_finish True env emit_ok s))
            = (map_of (object_database s))(task_id t \<mapsto> d\<lparr>gemini_name := l, status := Done\<rparr>))
      \<and> object_database (worker_finish False env emit_ok s) = object_database s)"
proof -
  obtain s1 l where loop: "retry_loop env (length (valid_models s)) 0 lit_recognition_failed s = (s1, Inr l)"
    using worker_loop_frame [of env s lit_recognition_failed]
    by (cases "retry_loop env (length (valid_models s)) 0 lit_recognition_failed s") auto
  have a: "task_queue s = t # rest \<and> map_of (object_database s) (task_id t) = None \<longrightarrow>
      worker_get s = s\<lparr>task_queue := rest\<rparr>"
    by (simp add: worker_get_def)
  have b: "worker_task s = None \<and> task_queue s = t # rest
        \<and> map_of (object_database s) (task_id t) = None \<longrightarrow>
      worker_finish img_ok env emit_ok (worker_get s) = s\<lparr>task_queue := rest\<rparr>"
    by (simp add: worker_get_def worker_finish_def)
  have c: "worker_task s = Some t \<and> map_of (object_database s) (task_id t) = None \<longrightarrow>
      object_database (worker_finish img_ok env emit_ok s) = object_database s"
  proof (cases img_ok)
    case True
    then show ?thesis using worker_finish_eq [OF _ loop, of t emit_ok] by auto
  next
    case False
    then show ?thesis by (auto simp: worker_finish_def)
  qed
  have d: "worker_task s = Some t \<and> map_of (object_database s) (task_id t) = Some d \<longrightarrow>
      (\<exists>l. snd (retry_loop env (length (valid_models s)) 0 lit_recognition_failed s) = Inr l
         \<and> map_of (object_database (worker_finish True env emit_ok s))
            = (map_of (object_database s))(task_id t \<mapsto> d\<lparr>gemini_name := l, status := Done\<rparr>))
      \<and> object_database (worker_finish False env emit_ok s) = object_database s"
    using worker_finish_eq [OF _ loop, of t emit_ok] loop
    by (auto simp: AList.update_conv' worker_finish_def)
  from a b c d show ?thesis by blast
qed

theorem worker_leaves_absent_ids_witness:
  "worker_get (sys0\<lparr>task_queue := [stale_task], object_database := [(8, can)]\<rparr>)
     = sys0\<lparr>task_queue := [], object_database := [(8, can)]\<rparr>
   \<and> object_database (worker_finish True env_cola True
        (sys0\<lparr>worker_task := Some stale_task, object_database := [(8, can)]\<rparr>)) = [(8, can)]
   \<and> map_of (object_database (worker_finish True env_cola True
        (sys0\<lparr>worker_task := Some stale_task, object_database := [(7, can)]\<rparr>))) 7
      = Some (can\<lparr>gemini_name := ascii ''Cola'', status := Done\<rparr>)"
proof -
  let ?s8 = "sys0\<lparr>worker_task := Some stale_task, object_database := [(8, can)]\<rparr>"
  let ?s7 = "sys0\<lparr>worker_task := Some stale_task, object_database := [(7, can)]\<rparr>"
  have a: "worker_get (sys0\<lparr>task_queue := [stale_task], object_database := [(8, can)]\<rparr>)
     = sys0\<lparr>task_queue := [], object_database := [(8, can)]\<rparr>"
    using worker_leaves_absent_ids [of "sys0\<lparr>task_queue := [stale_task], object_database := [(8, can)]\<rparr>"
        stale_task "[]"]
    by (simp add: stale_task_def sys0_def)
  have b: "object_database (worker_finish True env_cola True ?s8) = [(8, can)]"
    using worker_leaves_absent_ids [of ?s8 stale_task _ True env_cola True]
    by (simp add: stale_task_def sys0_def)
  have vm: "valid_models ?s7 \<noteq> []" and len: "0 < length (valid_models ?s7)"
    by (simp_all add: sys0_def)
  have ne: "\<not> exhausted (api (env_cola 0))"
    by (simp add: env_cola_def exhausted_def)
  have lab: "snd (retry_loop env_cola (length (valid_models ?s7)) 0 lit_recognition_failed ?s7)
      = Inr (ascii ''Cola'')"
    using retry_loop_stop [where env = env_cola and a = 0 and s = ?s7, OF len vm ne]
    by (simp add: env_cola_def)
  have c: "map_of (object_database (worker_finish True env_cola True ?s7)) 7
      = Some (can\<lparr>gemini_name := ascii ''Cola'', status := Done\<rparr>)"
    using worker_leaves_absent_ids [of ?s7 stale_task _ True env_cola True can] lab
    by (auto simp: stale_task_def sys0_def)
  from a b c show ?thesis by blast
qed

subsection \<open>Resynchronisation\<close>

lemma fold_resync_one:
  "fold resync_one items s
     = s\<lparr>trace := trace s @ concat (map (\<lambda>item. if resync_republished (snd item)
                                                   then [Emit (Detect_item (gemini_name (snd item)))]
                                                   else []) items)\<rparr>"
  by (induction items arbitrary: s) (simp_all add: resync_one_def)

lemma on_resync_request_trace:
  "on_resync_request s
     = s\<lparr>trace := trace s @ map (\<lambda>item. Emit (Detect_item (gemini_name (snd item))))
                                (filter (\<lambda>item. resync_republished (snd item)) (object_database s))\<rparr>"
proof -
  have "concat (map (\<lambda>item. if resync_republished (snd item)
                             then [Emit (Detect_item (gemini_name (snd item)))] else []) items)
        = map (\<lambda>item. Emit (Detect_item (gemini_name (snd item))))
            (filter (\<lambda>item. resync_republished (snd item)) items)" for items :: "(int \<times> obj) list"
    by (induction items) simp_all
  then show ?thesis by (simp add: on_resync_request_def fold_resync_one)
qed

text \<open>
  Claim C7 at a registry of three done objects, two with recognised labels and one
  with the label the worker stores after an error other than 429: the resync sends
  three detect events, not two, the third carrying the error label. The worker
  itself (line 245) never announces that label.
\<close>

theorem resync_republishes_api_error:
  "trace (on_resync_request (sys0\<lparr>object_database := three_done\<rparr>))
     = [Emit (Detect_item (ascii ''CoffeeCo'')), Emit (Detect_item (ascii ''iPhone 15'')),
        Emit (Detect_item lit_api_error)]
   \<and> \<not> result_announced True lit_api_error"
  by (simp add: on_resync_request_def resync_one_def resync_republished_def three_done_def
      done_obj_def sys0_def result_announced_def lit_api_error_def lit_failed_def lit_error_def ascii_def)

subsection \<open>Which labels are published\<close>

lemma evict_one_trace:
  assumes "db_id \<notin> cur" "map_of (object_database s) db_id = Some d"
    "missing_count d + 1 > MAX_MISSING_FRAMES"
  shows "evict_one cur db_id s
     = Inr (s\<lparr>object_database := AList.delete db_id (object_database s),
             trace := trace s @ (if removal_announced (is_connected s) (gemini_name d)
                                 then [Emit (Remove_item (gemini_name d))] else [])\<rparr>)"
  using assms by (simp add: evict_one_def Let_def AList.delete_update_same)

text \<open>
  Claim C10. What is published is decided by substring tests on the label alone. The
  worker announces the label its retry loop ends with iff the sink is connected and
  the label is non-empty and contains neither U+5931 U+6557 nor U+932F U+8AA4, so a
  label with one of these inside is never announced, also when it is the text of a
  successful response. Eviction tests the stored label for \<open>Thinking\<close> and U+5931
  U+6557, resync tests it for U+5931 U+6557 only; the three tests differ on the
  worker's own error label and on a label that contains \<open>Thinking\<close>.
\<close>

theorem publishing_decided_by_substrings:
  "(worker_task s = Some t
      \<and> snd (retry_loop env (length (valid_models s)) 0 lit_recognition_failed s) = Inr l \<longrightarrow>
      filter is_emit (drop (length (trace s)) (trace (worker_finish True env emit_ok s)))
        = (if is_connected s \<and> l \<noteq> [] \<and> \<not> py_in lit_failed l \<and> \<not> py_in lit_error l
           then [Emit (Detect_item l)] else [])
      \<and> (py_in lit_failed l \<or> py_in lit_error l \<longrightarrow>
           filter is_emit (drop (length (trace s)) (trace (worker_finish True env emit_ok s))) = []))
   \<and> (valid_models s \<noteq> [] \<and> api (env 0) = Response l \<longrightarrow>
        snd (retry_loop env (length (valid_models s)) 0 lit_recognition_failed s) = Inr l)
   \<and> (db_id \<notin> cur \<and> map_of (object_database s) db_id = Some d
        \<and> missing_count d + 1 > MAX_MISSING_FRAMES \<longrightarrow>
        (\<exists>s'. evict_one cur db_id s = Inr s'
           \<and> trace s' = trace s @
               (if is_connected s \<and> gemini_name d \<noteq> [] \<and> \<not> py_in lit_thinking (gemini_name d)
                   \<and> \<not> py_in lit_failed (gemini_name d)
                then [Emit (Remove_item (gemini_name d))] else [])))
   \<and> trace (resync_one (db_id, d) s) = trace s @
        (if status d = Done \<and> gemini_name d \<noteq> [] \<and> \<not> py_in lit_failed (gemini_name d)
         then [Emit (Detect_item (gemini_name d))] else [])
   \<and> \<not> result_announced True lit_api_error \<and> removal_announced True lit_api_error
   \<and> resync_republished (done_obj lit_api_error)
   \<and> result_announced True (ascii ''Thinking Cap'') \<and> \<not> removal_announced True (ascii ''Thinking Cap'')
   \<and> resync_republished (done_obj (ascii ''Thinking Cap''))"
proof -
  have a: "worker_task s = Some t
      \<and> snd (retry_loop env (length (valid_models s)) 0 lit_recognition_failed s) = Inr l \<longrightarrow>
      filter is_emit (drop (length (trace s)) (trace (worker_finish True env emit_ok s)))
        = (if is_connected s \<and> l \<noteq> [] \<and> \<not> py_in lit_failed l \<and> \<not> py_in lit_error l
           then [Emit (Detect_item l)] else [])
      \<and> (py_in lit_failed l \<or> py_in lit_error l \<longrightarrow>
           filter is_emit (drop (length (trace s)) (trace (worker_finish True env emit_ok s))) = [])"
  proof (intro impI)
    assume h: "worker_task s = Some t
      \<and> snd (retry_loop env (length (valid_models s)) 0 lit_recognition_failed s) = Inr l"
    then obtain s1 where loop: "retry_loop env (length (valid_models s)) 0 lit_recognition_failed s = (s1, Inr l)"
      by (cases "retry_loop env (length (valid_models s)) 0 lit_recognition_failed s") auto
    from worker_loop_calls [of env s lit_recognition_failed] loop
    obtain calls where c: "trace s1 = trace s @ calls" "filter is_emit calls = []"
      by auto
    have "filter is_emit (drop (length (trace s)) (trace (worker_finish True env emit_ok s)))
        = (if result_announced (is_connected s) l then [Emit (Detect_item l)] else [])"
      using worker_finish_eq [OF _ loop, of t emit_ok] h c by (simp add: is_emit_def)
    then show "filter is_emit (drop (length (trace s)) (trace (worker_finish True env emit_ok s)))
        = (if is_connected s \<and> l \<noteq> [] \<and> \<not> py_in lit_failed l \<and> \<not> py_in lit_error l
           then [Emit (Detect_item l)] else [])
      \<and> (py_in lit_failed l \<or> py_in lit_error l \<longrightarrow>
           filter is_emit (drop (length (trace s)) (trace (worker_finish True env emit_ok s))) = [])"
      by (auto simp: result_announced_def)
  qed
  have b: "valid_models s \<noteq> [] \<and> api (env 0) = Response l \<longrightarrow>
        snd (retry_loop env (length (valid_models s)) 0 lit_recognition_failed s) = Inr l"
    by (auto simp: retry_loop_stop exhausted_def)
  have c: "db_id \<notin> cur \<and> map_of (object_database s) db_id = Some d
        \<and> missing_count d + 1 > MAX_MISSING_FRAMES \<longrightarrow>
        (\<exists>s'. evict_one cur db_id s = Inr s'
           \<and> trace s' = trace s @
               (if is_connected s \<and> gemini_name d \<noteq> [] \<and> \<not> py_in lit_thinking (gemini_name d)
                   \<and> \<not> py_in lit_failed (gemini_name d)
                then [Emit (Remove_item (gemini_name d))] else []))"
    by (auto simp: evict_one_trace removal_announced_def)
  have d: "trace (resync_one (db_id, d) s) = trace s @
        (if status d = Done \<and> gemini_name d \<noteq> [] \<and> \<not> py_in lit_failed (gemini_name d)
         then [Emit (Detect_item (gemini_name d))] else [])"
    by (simp add: resync_one_def resync_republished_def)
  have e: "\<not> result_announced True lit_api_error \<and> removal_announced True lit_api_error
   \<and> resync_republished (done_obj lit_api_error)"
    by (simp add: result_announced_def removal_announced_def resync_republished_def done_obj_def
        lit_api_error_def lit_failed_def lit_error_def lit_thinking_def ascii_def)
  have f: "result_announced True (ascii ''Thinking Cap'') \<and> \<not> removal_announced True (ascii ''Thinking Cap'')
   \<and> resync_republished (done_obj (ascii ''Thinking Cap''))"
    by (simp add: result_announced_def removal_announced_def resync_republished_def done_obj_def
        lit_failed_def lit_error_def lit_thinking_def ascii_def)
  from a b c d e f show ?thesis by blast
qed

theorem publishing_decided_by_substrings_witness:
  "worker_task (sys0\<lparr>worker_task := Some stale_task\<rparr>) = Some stale_task
   \<and> snd (retry_loop env_fail_word (length (valid_models (sys0\<lparr>worker_task := Some stale_task\<rparr>))) 0
            lit_recognition_failed (sys0\<lparr>worker_task := Some stale_task\<rparr>))
       = Inr (ascii ''Fail '' @ lit_failed)
   \<and> filter is_emit (trace (worker_finish True env_fail_word True (sys0\<lparr>worker_task := Some stale_task\<rparr>))) = []"
proof -
  let ?s = "sys0\<lparr>worker_task := Some stale_task\<rparr>"
  let ?l = "ascii ''Fail '' @ lit_failed"
  have wt: "worker_task ?s = Some stale_task" by simp
  have vm: "valid_models ?s \<noteq> []" by (simp add: sys0_def)
  have ap: "api (env_fail_word 0) = Response ?l" by (simp add: env_fail_word_def)
  have tr: "trace ?s = []" by (simp add: sys0_def)
  have sub: "py_in lit_failed ?l" by (simp add: lit_failed_def ascii_def)
  note inst = publishing_decided_by_substrings [of ?s stale_task env_fail_word ?l True]
  from inst vm ap
  have lab: "snd (retry_loop env_fail_word (length (valid_models ?s)) 0 lit_recognition_failed ?s) = Inr ?l"
    by blast
  from inst wt lab sub
  have "filter is_emit (drop (length (trace ?s)) (trace (worker_finish True env_fail_word True ?s))) = []"
    by blast
  then have "filter is_emit (trace (worker_finish True env_fail_word True ?s)) = []"
    unfolding tr by simp
  with wt lab show ?thesis by blast
qed

subsection \<open>The loop over the boxes of a frame\<close>

lemma track_detection_frame:
  "is_connected (track_detection h w det s) = is_connected s"
  "worker_task (track_detection h w det s) = worker_task s"
  "valid_models (track_detection h w det s) = valid_models s"
  "current_model_index (track_detection h w det s) = current_model_index s"
  "model_name (track_detection h w det s) = model_name s"
  by (simp_all add: track_detection_def check_api_quota_def Let_def split: option.splits)

lemma track_detection_other:
  "k \<noteq> det_id det \<Longrightarrow>
   map_of (object_database (track_detection h w det s)) k = map_of (object_database s) k"
  by (simp add: track_detection_def check_api_quota_def Let_def AList.update_conv' split: option.splits)

lemma track_detection_other_puts:
  "k \<noteq> det_id det \<Longrightarrow>
   filter (is_put_for k) (trace (track_detection h w det s)) = filter (is_put_for k) (trace s)"
  by (simp add: track_detection_def check_api_quota_def Let_def is_put_for_def split: option.splits)

lemma track_detection_no_emit:
  "filter is_emit (trace (track_detection h w det s)) = filter is_emit (trace s)"
  by (simp add: track_detection_def check_api_quota_def Let_def is_emit_def split: option.splits)

lemma track_detection_entry:
  "\<exists>d'. map_of (object_database (track_detection h w det s)) (det_id det) = Some d'
     \<and> missing_count d' = 0
     \<and> frame_count d' = (case map_of (object_database s) (det_id det) of
                           None \<Rightarrow> 1 | Some d \<Rightarrow> frame_count d + 1)"
  by (simp add: track_detection_def check_api_quota_def Let_def AList.update_conv' new_object_def
      split: option.splits)

lemma fold_track_frame:
  "is_connected (fold (track_detection h w) dets s) = is_connected s
   \<and> worker_task (fold (track_detection h w) dets s) = worker_task s"
  by (induction dets arbitrary: s) (simp_all add: track_detection_frame)

lemma fold_track_other:
  "k \<notin> det_id ` set dets \<Longrightarrow>
   map_of (object_database (fold (track_detection h w) dets s)) k = map_of (object_database s) k
   \<and> filter (is_put_for k) (trace (fold (track_detection h w) dets s))
       = filter (is_put_for k) (trace s)"
  by (induction dets arbitrary: s) (auto simp: track_detection_other track_detection_other_puts)

lemma fold_track_no_emit:
  "filter is_emit (trace (fold (track_detection h w) dets s)) = filter is_emit (trace s)"
  by (induction dets arbitrary: s) (simp_all add: track_detection_no_emit)

lemma fold_track_trace:
  "\<exists>calls. trace (fold (track_detection h w) dets s) = trace s @ calls \<and> filter is_emit calls = []"
proof (induction dets arbitrary: s)
  case Nil
  then show ?case by simp
next
  case (Cons det dets)
  have "\<exists>c1. trace (track_detection h w det s) = trace s @ c1 \<and> filter is_emit c1 = []"
    by (simp add: track_detection_def check_api_quota_def Let_def is_emit_def split: option.splits)
  then obtain c1 where c1: "trace (track_detection h w det s) = trace s @ c1" "filter is_emit c1 = []"
    by blast
  from Cons [of "track_detection h w det s"] obtain c2
    where c2: "trace (fold (track_detection h w) dets (track_detection h w det s))
                = trace (track_detection h w det s) @ c2" "filter is_emit c2 = []"
    by blast
  from c1 c2 have "trace (fold (track_detection h w) (det # dets) s) = trace s @ (c1 @ c2)
     \<and> filter is_emit (c1 @ c2) = []"
    by simp
  then show ?case by blast
qed

lemma fold_track_counts:
  "k \<in> det_id ` set dets \<Longrightarrow>
   \<exists>d'. map_of (object_database (fold (track_detection h w) dets s)) k = Some d'
     \<and> missing_count d' = 0
     \<and> frame_count d' = (case map_of (object_database s) k of None \<Rightarrow> 0 | Some d \<Rightarrow> frame_count d)
                          + int (count_list (map det_id dets) k)"
proof (induction dets arbitrary: s)
  case Nil
  then show ?case by simp
next
  case (Cons det dets)
  let ?s1 = "track_detection h w det s"
  show ?case
  proof (cases "k \<in> det_id ` set dets")
    case True
    from Cons.IH [OF True, of ?s1] obtain d' where
      d': "map_of (object_database (fold (track_detection h w) dets ?s1)) k = Some d'"
        "missing_count d' = 0"
        "frame_count d' = (case map_of (object_database ?s1) k of None \<Rightarrow> 0 | Some d \<Rightarrow> frame_count d)
                          + int (count_list (map det_id dets) k)"
      by blast
    have "(case map_of (object_database ?s1) k of None \<Rightarrow> 0 | Some d \<Rightarrow> frame_count d)
        = (case map_of (object_database s) k of None \<Rightarrow> 0 | Some d \<Rightarrow> frame_count d)
          + (if det_id det = k then 1 else 0)"
      using track_detection_entry [of h w det s] track_detection_other [of k det h w s]
      by (auto split: option.splits)
    with d' show ?thesis by auto
  next
    case False
    with Cons.prems have k: "k = det_id det" by auto
    from False have "count_list (map det_id dets) k = 0"
      by (simp add: count_list_0_iff)
    moreover from fold_track_other [OF False, of h w ?s1]
    have "map_of (object_database (fold (track_detection h w) dets ?s1)) k
            = map_of (object_database ?s1) k"
      by simp
    ultimately show ?thesis
      using track_detection_entry [of h w det s] k by (auto split: option.splits)
  qed
qed

lemma filter_update_outside:
  "\<not> P k \<Longrightarrow> filter (\<lambda>x. P (fst x)) (AList.update k v al) = filter (\<lambda>x. P (fst x)) al"
  by (induction al) auto

lemma track_detection_outside:
  "\<not> P (det_id det) \<Longrightarrow>
   filter (\<lambda>x. P (fst x)) (object_database (track_detection h w det s))
     = filter (\<lambda>x. P (fst x)) (object_database s)"
  by (simp add: track_detection_def check_api_quota_def Let_def filter_update_outside
      split: option.splits)

lemma fold_track_outside:
  "\<forall>det \<in> set dets. \<not> P (det_id det) \<Longrightarrow>
   filter (\<lambda>x. P (fst x)) (object_database (fold (track_detection h w) dets s))
     = filter (\<lambda>x. P (fst x)) (object_database s)"
  by (induction dets arbitrary: s) (simp_all add: track_detection_outside)

lemma track_detection_distinct:
  "distinct (map fst (object_database s)) \<Longrightarrow>
   distinct (map fst (object_database (track_detection h w det s)))"
  by (simp add: track_detection_def check_api_quota_def Let_def AList.distinct_update
      split: option.splits)

lemma fold_track_distinct:
  "distinct (map fst (object_database s)) \<Longrightarrow>
   distinct (map fst (object_database (fold (track_detection h w) dets s)))"
  by (induction dets arbitrary: s) (simp_all add: track_detection_distinct)

subsection \<open>The eviction loop\<close>

lemma evict_one_result:
  assumes "map_of (object_database s) k = Some d"
  shows "\<exists>s'. evict_one cur k s = Inr s'
     \<and> map_of (object_database s')
         = (map_of (object_database s))
             (k := if k \<in> cur then Some d
                   else if missing_count d + 1 > MAX_MISSING_FRAMES then None else Some (aged d))
     \<and> trace s' = trace s @ removal_calls cur (is_connected s) k (Some d)
     \<and> is_connected s' = is_connected s
     \<and> task_queue s' = task_queue s \<and> api_history s' = api_history s
     \<and> worker_task s' = worker_task s
     \<and> (distinct (map fst (object_database s)) \<longrightarrow> distinct (map fst (object_database s')))"
  using assms
  by (auto simp: evict_one_def Let_def aged_def removal_calls_def AList.update_conv'
      AList.delete_conv' AList.delete_update_same AList.distinct_update AList.distinct_delete
      fun_upd_idem)

lemma evict_loop_result:
  assumes "distinct ks" and "\<forall>k \<in> set ks. map_of (object_database s) k \<noteq> None"
  shows "\<exists>s'. evict_loop cur ks s = Inr s'
     \<and> (\<forall>k. map_of (object_database s') k
            = (if k \<in> set ks \<and> k \<notin> cur
               then (case map_of (object_database s) k of
                       None \<Rightarrow> None
                     | Some d \<Rightarrow> if missing_count d + 1 > MAX_MISSING_FRAMES then None
                                 else Some (aged d))
               else map_of (object_database s) k))
     \<and> trace s' = trace s
          @ concat (map (\<lambda>k. removal_calls cur (is_connected s) k (map_of (object_database s) k)) ks)
     \<and> is_connected s' = is_connected s
     \<and> task_queue s' = task_queue s \<and> api_history s' = api_history s
     \<and> worker_task s' = worker_task s
     \<and> (distinct (map fst (object_database s)) \<longrightarrow> distinct (map fst (object_database s')))"
  using assms
proof (induction ks arbitrary: s)
  case Nil
  then show ?case by simp
next
  case (Cons k ks)
  from Cons.prems obtain d where d: "map_of (object_database s) k = Some d" by auto
  from evict_one_result [OF d, of cur] obtain s1 where
    s1: "evict_one cur k s = Inr s1"
    and db1: "map_of (object_database s1)
         = (map_of (object_database s))
             (k := if k \<in> cur then Some d
                   else if missing_count d + 1 > MAX_MISSING_FRAMES then None else Some (aged d))"
    and tr1: "trace s1 = trace s @ removal_calls cur (is_connected s) k (Some d)"
    and fr1: "is_connected s1 = is_connected s" "task_queue s1 = task_queue s"
      "api_history s1 = api_history s" "worker_task s1 = worker_task s"
    and dist1: "distinct (map fst (object_database s)) \<longrightarrow> distinct (map fst (object_database s1))"
    by blast
  from Cons.prems have notin: "k \<notin> set ks" and dks: "distinct ks" by auto
  have same: "\<forall>j \<in> set ks. map_of (object_database s1) j = map_of (object_database s) j"
    using notin db1 by auto
  with Cons.prems have pres: "\<forall>j \<in> set ks. map_of (object_database s1) j \<noteq> None" by auto
  from Cons.IH [OF dks pres] obtain s' where
    s': "evict_loop cur ks s1 = Inr s'"
    and db': "\<forall>j. map_of (object_database s') j
            = (if j \<in> set ks \<and> j \<notin> cur
               then (case map_of (object_database s1) j of
                       None \<Rightarrow> None
                     | Some d \<Rightarrow> if missing_count d + 1 > MAX_MISSING_FRAMES then None
                                 else Some (aged d))
               else map_of (object_database s1) j)"
    and tr': "trace s' = trace s1
          @ concat (map (\<lambda>k. removal_calls cur (is_connected s1) k (map_of (object_database s1) k)) ks)"
    and fr': "is_connected s' = is_connected s1" "task_queue s' = task_queue s1"
      "api_history s' = api_history s1" "worker_task s' = worker_task s1"
    and dist': "distinct (map fst (object_database s1)) \<longrightarrow> distinct (map fst (object_database s'))"
    by blast
  have run: "evict_loop cur (k # ks) s = Inr s'"
    using s1 s' by simp
  have db: "\<forall>j. map_of (object_database s') j
            = (if j \<in> set (k # ks) \<and> j \<notin> cur
               then (case map_of (object_database s) j of
                       None \<Rightarrow> None
                     | Some d \<Rightarrow> if missing_count d + 1 > MAX_MISSING_FRAMES then None
                                 else Some (aged d))
               else map_of (object_database s) j)"
  proof
    fix j
    show "map_of (object_database s') j
            = (if j \<in> set (k # ks) \<and> j \<notin> cur
               then (case map_of (object_database s) j of
                       None \<Rightarrow> None
                     | Some d \<Rightarrow> if missing_count d + 1 > MAX_MISSING_FRAMES then None
                                 else Some (aged d))
               else map_of (object_database s) j)"
    proof (cases "j = k")
      case True
      with notin db' db1 d show ?thesis by simp
    next
      case False
      with db' db1 show ?thesis by simp
    qed
  qed
  have "map (\<lambda>k. removal_calls cur (is_connected s1) k (map_of (object_database s1) k)) ks
      = map (\<lambda>k. removal_calls cur (is_connected s) k (map_of (object_database s) k)) ks"
    using same fr1 by (intro map_cong) simp_all
  with tr' tr1 d have tr: "trace s' = trace s
          @ concat (map (\<lambda>k. removal_calls cur (is_connected s) k (map_of (object_database s) k)) (k # ks))"
    by simp
  from run db tr fr1 fr' dist1 dist' show ?case by simp
qed

text \<open>Without assuming distinct keys: what the loop can do to one id.\<close>

lemma evict_one_stage:
  assumes "evict_one cur k s = Inr s'"
  shows "(stage j s' = stage j s \<or> stage j s' = 0)
     \<and> (j \<in> cur \<longrightarrow> map_of (object_database s') j = map_of (object_database s) j)
     \<and> filter (is_put_for j) (trace s') = filter (is_put_for j) (trace s)"
  using assms
  by (auto simp: evict_one_def Let_def stage_def AList.update_conv' AList.delete_conv'
      is_put_for_def split: option.splits if_splits)

lemma evict_loop_stage:
  assumes "evict_loop cur ks s = Inr s'"
  shows "(stage j s' = stage j s \<or> stage j s' = 0)
     \<and> (j \<in> cur \<longrightarrow> map_of (object_database s') j = map_of (object_database s) j)
     \<and> filter (is_put_for j) (trace s') = filter (is_put_for j) (trace s)"
  using assms
proof (induction ks arbitrary: s)
  case Nil
  then show ?case by simp
next
  case (Cons k ks)
  from Cons.prems obtain s1 where s1: "evict_one cur k s = Inr s1" and r: "evict_loop cur ks s1 = Inr s'"
    by (auto split: sum.splits)
  from evict_one_stage [OF s1, of j] Cons.IH [OF r] show ?case by auto
qed

subsection \<open>A whole frame pass\<close>

lemma removal_calls_items:
  assumes "distinct (map fst db)"
  shows "concat (map (\<lambda>k. removal_calls cur conn k (map_of db k)) (map fst db))
     = map (\<lambda>item. Emit (Remove_item (gemini_name (snd item))))
         (filter (\<lambda>item. missing_count (snd item) + 1 > MAX_MISSING_FRAMES
                          \<and> removal_announced conn (gemini_name (snd item)))
            (filter (\<lambda>item. fst item \<notin> cur) db))"
proof -
  have look: "map_of db (fst item) = Some (snd item)" if "item \<in> set db" for item
    using assms that by (cases item) simp
  have a: "map (\<lambda>k. removal_calls cur conn k (map_of db k)) (map fst db)
      = map (\<lambda>item. removal_calls cur conn (fst item) (Some (snd item))) db"
    by (simp add: look cong: map_cong)
  have b: "concat (map (\<lambda>item. removal_calls cur conn (fst item) (Some (snd item))) items)
     = map (\<lambda>item. Emit (Remove_item (gemini_name (snd item))))
         (filter (\<lambda>item. missing_count (snd item) + 1 > MAX_MISSING_FRAMES
                          \<and> removal_announced conn (gemini_name (snd item)))
            (filter (\<lambda>item. fst item \<notin> cur) items))" for items :: "(int \<times> obj) list"
    by (induction items) (simp_all add: removal_calls_def)
  show ?thesis unfolding a by (rule b)
qed

lemma removal_calls_emit:
  "filter is_emit (concat (map (\<lambda>k. removal_calls cur conn k (m k)) ks))
     = concat (map (\<lambda>k. removal_calls cur conn k (m k)) ks)"
  by (induction ks) (simp_all add: removal_calls_def is_emit_def split: option.splits)

lemma process_frame_result:
  assumes "distinct (map fst (object_database s))"
  shows "\<exists>s'. process_frame f s = Inr s'
     \<and> (\<forall>k. map_of (object_database s') k
            = (if k \<in> det_id ` set (detections f)
               then map_of (object_database
                      (fold (track_detection (frame_h f) (frame_w f)) (detections f) s)) k
               else (case map_of (object_database s) k of
                       None \<Rightarrow> None
                     | Some d \<Rightarrow> if missing_count d + 1 > MAX_MISSING_FRAMES then None
                                 else Some (aged d))))
     \<and> filter is_emit (drop (length (trace s)) (trace s'))
         = map (\<lambda>item. Emit (Remove_item (gemini_name (snd item))))
             (filter (\<lambda>item. missing_count (snd item) + 1 > MAX_MISSING_FRAMES
                              \<and> removal_announced (is_connected s) (gemini_name (snd item)))
                (filter (\<lambda>item. fst item \<notin> det_id ` set (detections f)) (object_database s)))
     \<and> distinct (map fst (object_database s'))"
proof -
  let ?s1 = "fold (track_detection (frame_h f) (frame_w f)) (detections f) s"
  let ?cur = "det_id ` set (detections f)"
  let ?ks = "map fst (object_database ?s1)"
  have d1: "distinct ?ks" using assms by (rule fold_track_distinct)
  have pres: "\<forall>k \<in> set ?ks. map_of (object_database ?s1) k \<noteq> None"
    by (simp add: map_of_eq_None_iff)
  from evict_loop_result [OF d1 pres, of ?cur] obtain s' where
    run: "evict_loop ?cur ?ks ?s1 = Inr s'"
    and db: "\<forall>k. map_of (object_database s') k
            = (if k \<in> set ?ks \<and> k \<notin> ?cur
               then (case map_of (object_database ?s1) k of
                       None \<Rightarrow> None
                     | Some d \<Rightarrow> if missing_count d + 1 > MAX_MISSING_FRAMES then None
                                 else Some (aged d))
               else map_of (object_database ?s1) k)"
    and tr: "trace s' = trace ?s1
          @ concat (map (\<lambda>k. removal_calls ?cur (is_connected ?s1) k (map_of (object_database ?s1) k)) ?ks)"
    and dist: "distinct (map fst (object_database s'))"
    using d1 by blast
  have pf: "process_frame f s = Inr s'"
    using run by (simp add: process_frame_def Let_def)
  have conn: "is_connected ?s1 = is_connected s"
    by (simp add: fold_track_frame)
  have dbk: "map_of (object_database s') k
            = (if k \<in> ?cur then map_of (object_database ?s1) k
               else (case map_of (object_database s) k of
                       None \<Rightarrow> None
                     | Some d \<Rightarrow> if missing_count d + 1 > MAX_MISSING_FRAMES then None
                                 else Some (aged d)))" for k
  proof (cases "k \<in> ?cur")
    case True
    with db show ?thesis by simp
  next
    case False
    then have same: "map_of (object_database ?s1) k = map_of (object_database s) k"
      using fold_track_other [of k "detections f" "frame_h f" "frame_w f" s] by simp
    show ?thesis
    proof (cases "k \<in> set ?ks")
      case True
      with False db same show ?thesis by simp
    next
      case notin: False
      then have "map_of (object_database ?s1) k = None"
        by (simp add: map_of_eq_None_iff)
      with False notin db same show ?thesis by simp
    qed
  qed
  from fold_track_trace [of "frame_h f" "frame_w f" "detections f" s] obtain calls where
    c: "trace ?s1 = trace s @ calls" "filter is_emit calls = []"
    by blast
  define X where
    "X = concat (map (\<lambda>k. removal_calls ?cur (is_connected s) k (map_of (object_database ?s1) k)) ?ks)"
  have fx: "filter is_emit X = X"
    unfolding X_def by (rule removal_calls_emit)
  have "trace s' = trace s @ calls @ X"
    unfolding X_def tr conn c by simp
  then have "filter is_emit (drop (length (trace s)) (trace s')) = X"
    using c fx by simp
  then have "filter is_emit (drop (length (trace s)) (trace s'))
      = concat (map (\<lambda>k. removal_calls ?cur (is_connected s) k (map_of (object_database ?s1) k)) ?ks)"
    unfolding X_def .
  also have "\<dots> = map (\<lambda>item. Emit (Remove_item (gemini_name (snd item))))
         (filter (\<lambda>item. missing_count (snd item) + 1 > MAX_MISSING_FRAMES
                          \<and> removal_announced (is_connected s) (gemini_name (snd item)))
            (filter (\<lambda>item. fst item \<notin> ?cur) (object_database ?s1)))"
    using d1 by (rule removal_calls_items)
  also have "filter (\<lambda>item. fst item \<notin> ?cur) (object_database ?s1)
      = filter (\<lambda>item. fst item \<notin> ?cur) (object_database s)"
    by (rule fold_track_outside) simp
  finally have em: "filter is_emit (drop (length (trace s)) (trace s'))
         = map (\<lambda>item. Emit (Remove_item (gemini_name (snd item))))
             (filter (\<lambda>item. missing_count (snd item) + 1 > MAX_MISSING_FRAMES
                              \<and> removal_announced (is_connected s) (gemini_name (snd item)))
                (filter (\<lambda>item. fst item \<notin> ?cur) (object_database s)))" .
  from pf dbk em dist show ?thesis by blast
qed

lemma frame7_eval:
  "process_frame frame7 (sys0\<lparr>object_database := [(7, bottle), (8, can)]\<rparr>)
     = Inr (sys0\<lparr>object_database :=
                   [(7, bottle\<lparr>frame_count := 21, status := Sending, gemini_name := lit_thinking_dots\<rparr>),
                    (8, can\<lparr>missing_count := 4\<rparr>)],
                 api_history := [101],
                 task_queue := [stale_task],
                 trace := [QuotaCheck True, Put stale_task]\<rparr>)"
  by (simp add: process_frame_def frame7_def box7_def track_detection_def check_api_quota_def
      evict_one_def sys0_def bottle_def can_def stale_task_def crop_bounds_def Let_def
      STABILITY_FRAMES_def MAX_RPM_def MAX_MISSING_FRAMES_def)

text \<open>
  Claim C8. In one frame pass, an object whose id is among the boxes of the frame has
  its missing count set to 0 and its frame count raised (by one for each box that
  carries the id) while an object whose id is absent has its missing count raised by
  one, its frame count untouched, and is deleted when the new missing count exceeds
  \<open>MAX_MISSING_FRAMES\<close>. No object has both counts raised.
\<close>

theorem counters_exclusive:
  assumes "distinct (map fst (object_database s))"
  shows "\<exists>s'. process_frame f s = Inr s'
     \<and> (\<forall>k d. map_of (object_database s) k = Some d \<longrightarrow>
          (if k \<in> det_id ` set (detections f)
           then (\<exists>d'. map_of (object_database s') k = Some d'
                   \<and> missing_count d' = 0
                   \<and> frame_count d' = frame_count d + int (count_list (map det_id (detections f)) k)
                   \<and> frame_count d < frame_count d')
           else map_of (object_database s') k
                  = (if missing_count d + 1 > MAX_MISSING_FRAMES then None
                     else Some (d\<lparr>missing_count := missing_count d + 1\<rparr>))))"
proof -
  let ?s1 = "fold (track_detection (frame_h f) (frame_w f)) (detections f) s"
  from process_frame_result [OF assms, of f] obtain s' where
    pf: "process_frame f s = Inr s'"
    and db: "\<forall>k. map_of (object_database s') k
            = (if k \<in> det_id ` set (detections f)
               then map_of (object_database ?s1) k
               else (case map_of (object_database s) k of
                       None \<Rightarrow> None
                     | Some d \<Rightarrow> if missing_count d + 1 > MAX_MISSING_FRAMES then None
                                 else Some (aged d)))"
    by blast
  have "if k \<in> det_id ` set (detections f)
           then (\<exists>d'. map_of (object_database s') k = Some d'
                   \<and> missing_count d' = 0
                   \<and> frame_count d' = frame_count d + int (count_list (map det_id (detections f)) k)
                   \<and> frame_count d < frame_count d')
           else map_of (object_database s') k
                  = (if missing_count d + 1 > MAX_MISSING_FRAMES then None
                     else Some (d\<lparr>missing_count := missing_count d + 1\<rparr>))"
    if look: "map_of (object_database s) k = Some d" for k d
  proof (cases "k \<in> det_id ` set (detections f)")
    case True
    from fold_track_counts [OF True, of "frame_h f" "frame_w f" s] look obtain d' where
      d': "map_of (object_database ?s1) k = Some d'" "missing_count d' = 0"
        "frame_count d' = frame_count d + int (count_list (map det_id (detections f)) k)"
      by auto
    from True have "k \<in> set (map det_id (detections f))" by simp
    then have "count_list (map det_id (detections f)) k \<noteq> 0"
      by (simp only: count_list_0_iff) simp
    then have "0 < count_list (map det_id (detections f)) k"
      by simp
    with d' db True show ?thesis by simp
  next
    case False
    with db look show ?thesis by (simp add: aged_def)
  qed
  with pf show ?thesis by blast
qed

theorem counters_exclusive_witness:
  "distinct (map fst (object_database (sys0\<lparr>object_database := [(7, bottle), (8, can)]\<rparr>)))
   \<and> (\<exists>s'. process_frame frame7 (sys0\<lparr>object_database := [(7, bottle), (8, can)]\<rparr>) = Inr s'
         \<and> (\<exists>d'. map_of (object_database s') 7 = Some d' \<and> missing_count d' = 0
                \<and> frame_count d' = 21)
         \<and> map_of (object_database s') 8 = Some (can\<lparr>missing_count := 4\<rparr>))"
proof -
  let ?s = "sys0\<lparr>object_database := [(7, bottle), (8, can)]\<rparr>"
  have h: "distinct (map fst (object_database ?s))" by simp
  from counters_exclusive [OF h, of frame7] obtain s' where
    pf: "process_frame frame7 ?s = Inr s'"
    and all: "\<forall>k d. map_of (object_database ?s) k = Some d \<longrightarrow>
          (if k \<in> det_id ` set (detections frame7)
           then (\<exists>d'. map_of (object_database s') k = Some d'
                   \<and> missing_count d' = 0
                   \<and> frame_count d' = frame_count d + int (count_list (map det_id (detections frame7)) k)
                   \<and> frame_count d < frame_count d')
           else map_of (object_database s') k
                  = (if missing_count d + 1 > MAX_MISSING_FRAMES then None
                     else Some (d\<lparr>missing_count := missing_count d + 1\<rparr>)))"
    by blast
  from all [rule_format, of 7 bottle]
  have a: "\<exists>d'. map_of (object_database s') 7 = Some d' \<and> missing_count d' = 0 \<and> frame_count d' = 21"
    by (auto simp: frame7_def box7_def bottle_def)
  from all [rule_format, of 8 can]
  have b: "map_of (object_database s') 8 = Some (can\<lparr>missing_count := 4\<rparr>)"
    by (simp add: frame7_def box7_def can_def MAX_MISSING_FRAMES_def)
  from h pf a b show ?thesis by blast
qed

text \<open>
  Claim C6 as stated, that the removal is announced iff the stored label is genuine,
  fails when the sink is not connected: the object with the recognised label
  \<open>CoffeeCo\<close> is deleted and nothing is sent.
\<close>

theorem no_removal_notice_when_disconnected:
  "process_frame empty_frame (sys0\<lparr>is_connected := False, object_database := [(7, gone)]\<rparr>)
     = Inr (sys0\<lparr>is_connected := False, object_database := []\<rparr>)
   \<and> trace (sys0\<lparr>is_connected := False, object_database := []\<rparr>) = []
   \<and> gemini_name gone = ascii ''CoffeeCo''
   \<and> ascii ''CoffeeCo'' \<noteq> [] \<and> ascii ''CoffeeCo'' \<noteq> lit_thinking_dots
   \<and> ascii ''CoffeeCo'' \<noteq> lit_recognition_failed \<and> ascii ''CoffeeCo'' \<noteq> lit_api_error"
  by (simp add: process_frame_def empty_frame_def evict_one_def sys0_def gone_def Let_def
      MAX_MISSING_FRAMES_def removal_announced_def ascii_def lit_thinking_dots_def
      lit_recognition_failed_def lit_api_error_def)

text \<open>
  Claim C6, amended. In a frame pass every object that is absent from the frame and
  whose missing count, once raised, exceeds \<open>MAX_MISSING_FRAMES\<close> is deleted. The
  removals announced in the pass are those of the deleted objects, in registry order,
  that pass a test \<open>ann\<close> on the stored label: the test fails when the sink is not
  connected or the label is empty or contains \<open>Thinking\<close> or U+5931 U+6557, and it
  holds when the sink is connected and the label is non-empty and contains none of
  \<open>Thinking\<close>, U+5931 U+6557 and U+932F U+8AA4.
\<close>

theorem eviction_and_removal_notice:
  assumes "distinct (map fst (object_database s))"
  shows "\<exists>s' ann. process_frame f s = Inr s'
     \<and> (\<forall>k d. map_of (object_database s) k = Some d \<and> k \<notin> det_id ` set (detections f)
                \<and> missing_count d + 1 > MAX_MISSING_FRAMES \<longrightarrow>
              map_of (object_database s') k = None)
     \<and> filter is_emit (drop (length (trace s)) (trace s'))
         = map (\<lambda>item. Emit (Remove_item (gemini_name (snd item))))
             (filter (\<lambda>item. fst item \<notin> det_id ` set (detections f)
                              \<and> missing_count (snd item) + 1 > MAX_MISSING_FRAMES
                              \<and> ann (gemini_name (snd item)))
                (object_database s))
     \<and> (\<forall>l. \<not> is_connected s \<or> l = [] \<or> py_in lit_thinking l \<or> py_in lit_failed l \<longrightarrow> \<not> ann l)
     \<and> (\<forall>l. is_connected s \<and> l \<noteq> [] \<and> \<not> py_in lit_thinking l \<and> \<not> py_in lit_failed l
              \<and> \<not> py_in lit_error l \<longrightarrow> ann l)"
proof -
  from process_frame_result [OF assms, of f] obtain s' where
    pf: "process_frame f s = Inr s'"
    and db: "\<forall>k. map_of (object_database s') k
            = (if k \<in> det_id ` set (detections f)
               then map_of (object_database
                      (fold (track_detection (frame_h f) (frame_w f)) (detections f) s)) k
               else (case map_of (object_database s) k of
                       None \<Rightarrow> None
                     | Some d \<Rightarrow> if missing_count d + 1 > MAX_MISSING_FRAMES then None
                                 else Some (aged d)))"
    and em: "filter is_emit (drop (length (trace s)) (trace s'))
         = map (\<lambda>item. Emit (Remove_item (gemini_name (snd item))))
             (filter (\<lambda>item. missing_count (snd item) + 1 > MAX_MISSING_FRAMES
                              \<and> removal_announced (is_connected s) (gemini_name (snd item)))
                (filter (\<lambda>item. fst item \<notin> det_id ` set (detections f)) (object_database s)))"
    by blast
  let ?ann = "removal_announced (is_connected s)"
  have del: "\<forall>k d. map_of (object_database s) k = Some d \<and> k \<notin> det_id ` set (detections f)
                \<and> missing_count d + 1 > MAX_MISSING_FRAMES \<longrightarrow>
              map_of (object_database s') k = None"
    using db by simp
  have em': "filter is_emit (drop (length (trace s)) (trace s'))
         = map (\<lambda>item. Emit (Remove_item (gemini_name (snd item))))
             (filter (\<lambda>item. fst item \<notin> det_id ` set (detections f)
                              \<and> missing_count (snd item) + 1 > MAX_MISSING_FRAMES
                              \<and> ?ann (gemini_name (snd item)))
                (object_database s))"
    unfolding em by (simp add: conj_commute conj_left_commute cong: conj_cong)
  have no: "\<forall>l. \<not> is_connected s \<or> l = [] \<or> py_in lit_thinking l \<or> py_in lit_failed l \<longrightarrow> \<not> ?ann l"
    by (auto simp: removal_announced_def)
  have yes: "\<forall>l. is_connected s \<and> l \<noteq> [] \<and> \<not> py_in lit_thinking l \<and> \<not> py_in lit_failed l
              \<and> \<not> py_in lit_error l \<longrightarrow> ?ann l"
    by (auto simp: removal_announced_def)
  from pf del em' no yes show ?thesis by blast
qed

theorem eviction_and_removal_notice_witness:
  "distinct (map fst (object_database (sys0\<lparr>object_database := [(7, gone)]\<rparr>)))
   \<and> (\<exists>s'. process_frame empty_frame (sys0\<lparr>object_database := [(7, gone)]\<rparr>) = Inr s'
         \<and> map_of (object_database s') 7 = None
         \<and> filter is_emit (trace s') = [Emit (Remove_item (ascii ''CoffeeCo''))])"
proof -
  let ?s = "sys0\<lparr>object_database := [(7, gone)]\<rparr>"
  let ?l = "ascii ''CoffeeCo''"
  have h: "distinct (map fst (object_database ?s))" by simp
  from eviction_and_removal_notice [OF h, of empty_frame] obtain s' ann where
    pf: "process_frame empty_frame ?s = Inr s'"
    and del: "\<forall>k d. map_of (object_database ?s) k = Some d \<and> k \<notin> det_id ` set (detections empty_frame)
                \<and> missing_count d + 1 > MAX_MISSING_FRAMES \<longrightarrow>
              map_of (object_database s') k = None"
    and em: "filter is_emit (drop (length (trace ?s)) (trace s'))
         = map (\<lambda>item. Emit (Remove_item (gemini_name (snd item))))
             (filter (\<lambda>item. fst item \<notin> det_id ` set (detections empty_frame)
                              \<and> missing_count (snd item) + 1 > MAX_MISSING_FRAMES
                              \<and> ann (gemini_name (snd item)))
                (object_database ?s))"
    and yes: "\<forall>l. is_connected ?s \<and> l \<noteq> [] \<and> \<not> py_in lit_thinking l \<and> \<not> py_in lit_failed l
              \<and> \<not> py_in lit_error l \<longrightarrow> ann l"
    by blast
  have "is_connected ?s \<and> ?l \<noteq> [] \<and> \<not> py_in lit_thinking ?l \<and> \<not> py_in lit_failed ?l
              \<and> \<not> py_in lit_error ?l"
    by (simp add: sys0_def ascii_def lit_thinking_def lit_failed_def lit_error_def)
  with yes have ann: "ann ?l" by blast
  from del [rule_format, of 7 gone] have a: "map_of (object_database s') 7 = None"
    by (simp add: empty_frame_def gone_def MAX_MISSING_FRAMES_def)
  from em ann have b: "filter is_emit (trace s') = [Emit (Remove_item ?l)]"
    by (simp add: empty_frame_def gone_def MAX_MISSING_FRAMES_def sys0_def)
  from h pf a b show ?thesis by blast
qed

subsection \<open>The lifecycle of an object\<close>

lemma attempt_no_put:
  "filter (is_put_for k) (trace (fst (attempt e s))) = filter (is_put_for k) (trace s)"
  by (simp add: attempt_trace is_put_for_def)

lemma retry_loop_no_put:
  assumes "valid_models s \<noteq> []"
  shows "filter (is_put_for k) (trace (fst (retry_loop env m a pn s))) = filter (is_put_for k) (trace s)"
  using assms
proof (induction a s rule: retry_loop_induct [where m = m and env = env])
  case (exit a s)
  then show ?case by (simp add: retry_loop_exit)
next
  case (stop a s)
  then show ?case by (simp add: retry_loop_stop attempt_no_put)
next
  case (again a s)
  then show ?case by (simp add: retry_loop_again attempt_no_put)
qed

lemma worker_loop_no_put:
  "filter (is_put_for k) (trace (fst (retry_loop env (length (valid_models s)) 0 pn s)))
     = filter (is_put_for k) (trace s)"
proof (cases "valid_models s = []")
  case True
  then show ?thesis by (simp add: retry_loop_exit)
next
  case False
  then show ?thesis by (rule retry_loop_no_put)
qed

text \<open>The blocks make up the functions above.\<close>

lemma track_detection_blocks:
  "\<exists>go s2. track_test det (track_count det s) = Inr (go, s2)
     \<and> (if go then track_send h w det s2 = Inr (track_detection h w det s)
         else s2 = track_detection h w det s)"
  by (auto simp: track_test_def track_count_def track_send_def track_detection_def
      check_api_quota_def Let_def AList.update_conv' split: option.splits)

lemma worker_finish_blocks:
  "worker_finish img_ok env emit_ok s
     = (case worker_task s of
          None \<Rightarrow> s
        | Some t \<Rightarrow>
            (case worker_recognise img_ok env s of
               (s1, None) \<Rightarrow> s1\<lparr>worker_task := None\<rparr>
             | (s1, Some product_name) \<Rightarrow>
                 (worker_emit emit_ok product_name (worker_write t product_name s1))
                   \<lparr>worker_task := None\<rparr>))"
  by (auto simp: worker_finish_def worker_recognise_def worker_write_def worker_emit_def Let_def
      split: option.splits sum.splits prod.splits)

lemma track_count_stage:
  "stage k (track_count det s) = (if k = det_id det \<and> stage k s = 0 then 1 else stage k s)"
  "trace (track_count det s) = trace s"
  by (auto simp: track_count_def stage_def Let_def AList.update_conv' new_object_def
      split: option.splits status.splits)

lemma track_test_effect:
  assumes "track_test det s = Inr (go, s')"
  shows "object_database s' = object_database s"
    and "filter (is_put_for k) (trace s') = filter (is_put_for k) (trace s)"
    and "go \<Longrightarrow> stage (det_id det) s = 1"
  using assms
  by (auto simp: track_test_def check_api_quota_def Let_def stage_def is_put_for_def
      split: option.splits if_splits)

lemma track_send_effect:
  assumes "track_send h w det s = Inr s'"
  shows "stage k s' = (if k = det_id det then 2 else stage k s)"
    and "stage (det_id det) s \<noteq> 0"
    and "puts k s' = puts k s + (if k = det_id det then 1 else 0)"
proof -
  from assms obtain d where d: "map_of (object_database s) (det_id det) = Some d"
    and s': "s' = s\<lparr>object_database :=
                        AList.update (det_id det)
                          (d\<lparr>status := Sending, gemini_name := lit_thinking_dots\<rparr>)
                          (object_database s),
                      task_queue := task_queue s @ [\<lparr>task_id = det_id det,
                         task_crop = crop_bounds h w det, task_hint = det_name det\<rparr>],
                      trace := trace s @ [Put \<lparr>task_id = det_id det,
                         task_crop = crop_bounds h w det, task_hint = det_name det\<rparr>]\<rparr>"
    by (auto simp: track_send_def Let_def split: option.splits)
  show "stage k s' = (if k = det_id det then 2 else stage k s)"
    unfolding s' by (simp add: stage_def AList.update_conv')
  show "stage (det_id det) s \<noteq> 0"
    using d by (simp add: stage_def split: status.splits)
  show "puts k s' = puts k s + (if k = det_id det then 1 else 0)"
    unfolding s' by (simp add: puts_def is_put_for_def)
qed

lemma worker_get_effect:
  "object_database (worker_get s) = object_database s" "trace (worker_get s) = trace s"
  by (simp_all add: worker_get_def Let_def split: list.splits)

lemma worker_recognise_effect:
  "object_database (fst (worker_recognise img_ok env s)) = object_database s"
  "filter (is_put_for k) (trace (fst (worker_recognise img_ok env s))) = filter (is_put_for k) (trace s)"
proof -
  obtain s1 r where loop: "retry_loop env (length (valid_models s)) 0 lit_recognition_failed s = (s1, r)"
    by (cases "retry_loop env (length (valid_models s)) 0 lit_recognition_failed s")
  from worker_loop_frame [of env s lit_recognition_failed] loop
  have db: "object_database s1 = object_database s" by simp
  from worker_loop_no_put [of k env s lit_recognition_failed] loop
  have np: "filter (is_put_for k) (trace s1) = filter (is_put_for k) (trace s)" by simp
  show "object_database (fst (worker_recognise img_ok env s)) = object_database s"
    using loop db by (simp add: worker_recognise_def split: sum.splits)
  show "filter (is_put_for k) (trace (fst (worker_recognise img_ok env s))) = filter (is_put_for k) (trace s)"
    using loop np by (simp add: worker_recognise_def split: sum.splits)
qed

lemma worker_write_effect:
  "stage k (worker_write t name s) = (if k = task_id t \<and> stage k s \<noteq> 0 then 3 else stage k s)"
  "trace (worker_write t name s) = trace s"
  by (auto simp: worker_write_def stage_def AList.update_conv' split: option.splits status.splits)

lemma worker_emit_effect:
  "object_database (worker_emit emit_ok name s) = object_database s"
  "filter (is_put_for k) (trace (worker_emit emit_ok name s)) = filter (is_put_for k) (trace s)"
  by (simp_all add: worker_emit_def Let_def is_put_for_def)

text \<open>What one step can do to the stage of an id, its puts, and the frame path's commitment.\<close>

lemma same_unchanged:
  "object_database (shared c') = object_database (shared c)
   \<Longrightarrow> filter (is_put_for k) (trace (shared c')) = filter (is_put_for k) (trace (shared c))
   \<Longrightarrow> frame_at c' = frame_at c \<Longrightarrow> unchanged_for k c c'"
  by (simp add: unchanged_for_def stage_def puts_def writing_for_def)

lemma frame_step_effect:
  assumes "frame_step c = Inr c'"
  shows "unchanged_for k c c'
     \<or> (stage k (shared c) = 0 \<and> stage k (shared c') = 1 \<and> puts k (shared c') = puts k (shared c)
          \<and> \<not> writing_for k c \<and> \<not> writing_for k c')
     \<or> (stage k (shared c) = 1 \<and> stage k (shared c') = 1 \<and> puts k (shared c') = puts k (shared c)
          \<and> \<not> writing_for k c \<and> writing_for k c')
     \<or> (writing_for k c \<and> \<not> writing_for k c' \<and> stage k (shared c) \<noteq> 0
          \<and> stage k (shared c') = 2 \<and> puts k (shared c') = puts k (shared c) + 1)
     \<or> (stage k (shared c) \<noteq> 0 \<and> stage k (shared c') = 0 \<and> puts k (shared c') = puts k (shared c)
          \<and> \<not> writing_for k c \<and> \<not> writing_for k c')"
proof (cases "frame_at c")
  case Between
  with assms show ?thesis by (simp add: frame_step_def unchanged_for_def)
next
  case (Counting f boxes)
  show ?thesis
  proof (cases boxes)
    case Nil
    with assms Counting obtain s' where
      ev: "evict_loop (set (map det_id (detections f))) (map fst (object_database (shared c))) (shared c) = Inr s'"
      and c': "c' = c\<lparr>shared := s', frame_at := Between\<rparr>"
      by (auto simp: frame_step_def split: sum.splits)
    from evict_loop_stage [OF ev, of k] c' Counting show ?thesis
      by (auto simp: unchanged_for_def puts_def writing_for_def)
  next
    case (Cons det rest)
    with assms Counting have c': "c' = c\<lparr>shared := track_count det (shared c), frame_at := Testing f det rest\<rparr>"
      by (simp add: frame_step_def)
    show ?thesis
      unfolding c' using Counting
      by (auto simp: unchanged_for_def track_count_stage puts_def writing_for_def)
  qed
next
  case (Testing f det rest)
  with assms obtain go s' where
    t: "track_test det (shared c) = Inr (go, s')"
    and c': "c' = c\<lparr>shared := s', frame_at := (if go then Writing f det rest else Counting f rest)\<rparr>"
    by (auto simp: frame_step_def split: sum.splits)
  note db = track_test_effect(1) [OF t]
    and pu = track_test_effect(2) [OF t, of k]
    and go = track_test_effect(3) [OF t]
  have st: "stage k s' = stage k (shared c)"
    using db by (simp add: stage_def)
  show ?thesis
    unfolding c' using Testing st pu go
    by (auto simp: unchanged_for_def puts_def writing_for_def)
next
  case (Writing f det rest)
  with assms obtain s' where
    t: "track_send (frame_h f) (frame_w f) det (shared c) = Inr s'"
    and c': "c' = c\<lparr>shared := s', frame_at := Counting f rest\<rparr>"
    by (auto simp: frame_step_def split: sum.splits)
  from track_send_effect(1) [OF t, of k] track_send_effect(2) [OF t]
    track_send_effect(3) [OF t, of k]
  show ?thesis
    unfolding c' using Writing
    by (auto simp: unchanged_for_def writing_for_def)
qed

lemma worker_step_effect:
  "unchanged_for k c (worker_step img_ok env emit_ok c)
   \<or> (stage k (shared c) \<noteq> 0 \<and> stage k (shared (worker_step img_ok env emit_ok c)) = 3
        \<and> puts k (shared (worker_step img_ok env emit_ok c)) = puts k (shared c)
        \<and> writing_for k (worker_step img_ok env emit_ok c) = writing_for k c)"
proof (cases "worker_at c")
  case Waiting
  then show ?thesis
    by (auto simp: worker_step_def Let_def worker_get_effect intro!: same_unchanged)
next
  case Holding
  obtain s1 r where w: "worker_recognise img_ok env (shared c) = (s1, r)"
    by (cases "worker_recognise img_ok env (shared c)")
  from worker_recognise_effect(1) [of img_ok env "shared c"]
    worker_recognise_effect(2) [of k img_ok env "shared c"] w
  have "object_database s1 = object_database (shared c)"
    "filter (is_put_for k) (trace s1) = filter (is_put_for k) (trace (shared c))"
    by simp_all
  with Holding w show ?thesis
    by (cases r) (auto simp: worker_step_def intro!: same_unchanged)
next
  case (Labelled name)
  show ?thesis
  proof (cases "worker_task (shared c)")
    case None
    with Labelled show ?thesis by (auto simp: worker_step_def intro!: same_unchanged)
  next
    case (Some t)
    with Labelled show ?thesis
      by (auto simp: worker_step_def unchanged_for_def worker_write_effect puts_def writing_for_def)
  qed
next
  case (Stored name)
  then show ?thesis
    by (auto simp: worker_step_def worker_emit_effect intro!: same_unchanged)
qed

lemma moves_refl: "moves k c c"
  by (simp add: moves_def)

lemma moves_trans: "moves k c c1 \<Longrightarrow> moves k c1 c2 \<Longrightarrow> moves k c c2"
  unfolding moves_def Let_def by (auto split: if_splits)

lemma step_effect:
  assumes "step c a = Inr c'"
  shows "unchanged_for k c c'
     \<or> (a = FrameStep \<and> stage k (shared c) = 0 \<and> stage k (shared c') = 1
          \<and> puts k (shared c') = puts k (shared c) \<and> \<not> writing_for k c \<and> \<not> writing_for k c')
     \<or> (a = FrameStep \<and> stage k (shared c) = 1 \<and> stage k (shared c') = 1
          \<and> puts k (shared c') = puts k (shared c) \<and> \<not> writing_for k c \<and> writing_for k c')
     \<or> (a = FrameStep \<and> writing_for k c \<and> \<not> writing_for k c' \<and> stage k (shared c) \<noteq> 0
          \<and> stage k (shared c') = 2 \<and> puts k (shared c') = puts k (shared c) + 1)
     \<or> (a = FrameStep \<and> stage k (shared c) \<noteq> 0 \<and> stage k (shared c') = 0
          \<and> puts k (shared c') = puts k (shared c) \<and> \<not> writing_for k c \<and> \<not> writing_for k c')
     \<or> ((\<exists>img_ok env emit_ok. a = WorkerStep img_ok env emit_ok)
          \<and> stage k (shared c) \<noteq> 0 \<and> stage k (shared c') = 3
          \<and> puts k (shared c') = puts k (shared c) \<and> writing_for k c' = writing_for k c)"
proof (cases a)
  case (FrameCall f)
  with assms have "unchanged_for k c c'"
    by (auto simp: step_def unchanged_for_def writing_for_def split: if_splits)
  then show ?thesis by blast
next
  case FrameStep
  with assms have "frame_step c = Inr c'" by (simp add: step_def)
  from frame_step_effect [OF this, of k] FrameStep show ?thesis by blast
next
  case (WorkerStep img_ok env emit_ok)
  with assms have "c' = worker_step img_ok env emit_ok c" by (simp add: step_def)
  with worker_step_effect [of k c img_ok env emit_ok] WorkerStep show ?thesis by blast
next
  case Resync
  with assms have "unchanged_for k c c'"
    by (auto simp: step_def on_resync_request_trace is_put_for_def intro!: same_unchanged)
  then show ?thesis by blast
next
  case (Reconnect ok)
  with assms have "unchanged_for k c c'"
    by (auto simp: step_def retry_connection_def Let_def is_put_for_def intro!: same_unchanged)
  then show ?thesis by blast
qed

lemma step_moves:
  assumes "step c a = Inr c'" and "stage k (shared c) = 0 \<or> stage k (shared c') \<noteq> 0"
  shows "moves k c c'"
  using step_effect [OF assms(1), of k] assms(2)
  unfolding moves_def Let_def unchanged_for_def by auto

lemma stage_le_3: "stage k s \<le> 3"
  by (simp add: stage_def split: option.splits status.splits)

lemma step_forward:
  assumes "step c a = Inr c'" and "stage k (shared c) = 0 \<or> stage k (shared c') \<noteq> 0"
    and "writing_for k c \<longrightarrow> stage k (shared c) = 1"
  shows "stage k (shared c) \<le> stage k (shared c')"
  using step_effect [OF assms(1), of k] assms(2,3) stage_le_3 [of k "shared c"]
  unfolding unchanged_for_def by auto

lemma step_cause:
  assumes "step c a = Inr c'" and "stage k (shared c') \<noteq> stage k (shared c)"
    and "stage k (shared c') \<noteq> 0"
  shows "case a of
           FrameStep \<Rightarrow> (stage k (shared c) = 0 \<and> stage k (shared c') = 1)
                         \<or> (writing_for k c \<and> stage k (shared c') = 2)
         | WorkerStep img_ok env emit_ok \<Rightarrow> stage k (shared c') = 3
         | _ \<Rightarrow> False"
  using step_effect [OF assms(1), of k] assms(2,3)
  unfolding unchanged_for_def by auto

lemma step_commits_when_pending:
  assumes "step c a = Inr c'" and "\<not> writing_for k c" and "writing_for k c'"
  shows "a = FrameStep \<and> stage k (shared c) = 1"
  using step_effect [OF assms(1), of k] assms(2,3)
  unfolding unchanged_for_def by auto

lemma states_of_Cons: "\<exists>rest. states_of c as = c # rest"
  by (cases as) simp_all

lemma run_moves:
  assumes "never_evicted k (map shared (states_of c as))"
  shows "sorted (map (\<lambda>c'. min 2 (stage k (shared c'))) (states_of c as))
     \<and> moves k c (last (states_of c as))
     \<and> ((\<forall>c' \<in> set (states_of c as). writing_for k c' \<longrightarrow> stage k (shared c') = 1) \<longrightarrow>
          sorted (map (\<lambda>c'. stage k (shared c')) (states_of c as)))"
  using assms
proof (induction as arbitrary: c)
  case Nil
  then show ?case by (simp add: moves_refl)
next
  case (Cons a as)
  show ?case
  proof (cases "step c a")
    case (Inl e)
    then show ?thesis by (simp add: moves_refl)
  next
    case (Inr c1)
    obtain rest where rest: "states_of c1 as = c1 # rest"
      using states_of_Cons by blast
    from Cons.prems Inr rest have ne: "stage k (shared c) = 0 \<or> stage k (shared c1) \<noteq> 0"
      and nev: "never_evicted k (map shared (states_of c1 as))"
      by simp_all
    from step_moves [OF Inr ne] have mv: "moves k c c1" .
    from Cons.IH [OF nev]
    have so: "sorted (map (\<lambda>c'. min 2 (stage k (shared c'))) (states_of c1 as))"
      and mv1: "moves k c1 (last (states_of c1 as))"
      and fw1: "(\<forall>c' \<in> set (states_of c1 as). writing_for k c' \<longrightarrow> stage k (shared c') = 1) \<longrightarrow>
          sorted (map (\<lambda>c'. stage k (shared c')) (states_of c1 as))"
      by simp_all
    from mv have le: "min 2 (stage k (shared c)) \<le> min 2 (stage k (shared c1))"
      by (simp add: moves_def Let_def)
    have a: "sorted (map (\<lambda>c'. min 2 (stage k (shared c'))) (c # states_of c1 as))"
      using so rest le by auto
    have b: "moves k c (last (c # states_of c1 as))"
      using moves_trans [OF mv mv1] rest by simp
    have d: "sorted (map (\<lambda>c'. stage k (shared c')) (c # states_of c1 as))"
      if fresh: "\<forall>c' \<in> set (c # states_of c1 as). writing_for k c' \<longrightarrow> stage k (shared c') = 1"
    proof -
      from fresh have "writing_for k c \<longrightarrow> stage k (shared c) = 1" by simp
      from step_forward [OF Inr ne this] have le': "stage k (shared c) \<le> stage k (shared c1)" .
      from fresh fw1 have "sorted (map (\<lambda>c'. stage k (shared c')) (states_of c1 as))" by simp
      with rest le' show ?thesis by auto
    qed
    from a b d show ?thesis using Inr by simp
  qed
qed

lemma cola_label:
  "valid_models s \<noteq> [] \<Longrightarrow>
   worker_recognise True env_cola s
     = (s\<lparr>api_history := filter (\<lambda>t. 101 - t < 60) (api_history s) @ [107],
          trace := trace s @ [QuotaCheck (int (length (filter (\<lambda>t. 101 - t < 60) (api_history s))) < MAX_RPM)]
                     @ (if int (length (filter (\<lambda>t. 101 - t < 60) (api_history s))) < MAX_RPM
                        then [] else [Sleep 5])
                     @ [Generate (model_name s)]\<rparr>,
        Some (ascii ''Cola''))"
proof -
  assume vm: "valid_models s \<noteq> []"
  then have len: "0 < length (valid_models s)" by simp
  have ne: "\<not> exhausted (api (env_cola 0))" by (simp add: env_cola_def exhausted_def)
  show ?thesis
    unfolding worker_recognise_def retry_loop_stop [of 0 "length (valid_models s)" s env_cola, OF len vm ne]
    by (simp add: attempt_def check_api_quota_def env_cola_def Let_def)
qed

text \<open>
  Claim C1 as stated, that the status moves only along pending, sending, done, fails.
  The worker holds the task of object 7 while that object leaves the frame and is
  evicted; a new object is then tracked under the id 7. When the worker writes its
  result back (lines 238-241 test only that the id is present), the new object goes
  from pending straight to done: it was never sending and no task was ever put for it.
\<close>

theorem pending_to_done_without_sending:
  "stages 7 (states_of left_over_start left_over_actions) = [2, 2, 0, 0, 1, 1, 1, 1, 3]
   \<and> puts 7 (shared (last (states_of left_over_start left_over_actions))) = 0"
  unfolding left_over_start_def left_over_actions_def
  apply (simp add: step_def frame_step_def empty_frame_def frame7_def box7_def leaving_def
      track_count_def track_test_def new_object_def evict_one_def removal_announced_def
      worker_step_def cola_label worker_write_def sys0_def stale_task_def
      stages_def stage_def puts_def is_put_for_def Let_def
      STABILITY_FRAMES_def MAX_RPM_def MAX_MISSING_FRAMES_def lit_thinking_dots_def lit_thinking_def ascii_def)
  done

lemma status_lifecycle_runs:
  "(never_evicted k (map shared (states_of c as)) \<longrightarrow>
      sorted (map (\<lambda>c'. min 2 (stage k (shared c'))) (states_of c as))
      \<and> (\<not> writing_for k c \<longrightarrow>
           puts k (shared (last (states_of c as)))
             + (if writing_for k (last (states_of c as)) then 1 else 0)
           \<le> puts k (shared c)
             + (if stage k (shared c) \<le> 1
                   \<and> (writing_for k (last (states_of c as))
                       \<or> 2 \<le> stage k (shared (last (states_of c as)))) then 1 else 0))
      \<and> ((\<forall>c' \<in> set (states_of c as). writing_for k c' \<longrightarrow> stage k (shared c') = 1) \<longrightarrow>
           sorted (map (\<lambda>c'. stage k (shared c')) (states_of c as))))
   \<and> (step d a = Inr d' \<and> stage k (shared d') \<noteq> stage k (shared d) \<and> stage k (shared d') \<noteq> 0 \<longrightarrow>
        (case a of
           FrameStep \<Rightarrow> (stage k (shared d) = 0 \<and> stage k (shared d') = 1)
                         \<or> (writing_for k d \<and> stage k (shared d') = 2)
         | WorkerStep img_ok env emit_ok \<Rightarrow> stage k (shared d') = 3
         | _ \<Rightarrow> False))
   \<and> (step d a = Inr d' \<and> \<not> writing_for k d \<and> writing_for k d' \<longrightarrow>
        a = FrameStep \<and> stage k (shared d) = 1)
   \<and> status (new_object yolo_raw_name) = Pending"
proof -
  have run: "never_evicted k (map shared (states_of c as)) \<longrightarrow>
      sorted (map (\<lambda>c'. min 2 (stage k (shared c'))) (states_of c as))
      \<and> (\<not> writing_for k c \<longrightarrow>
           puts k (shared (last (states_of c as)))
             + (if writing_for k (last (states_of c as)) then 1 else 0)
           \<le> puts k (shared c)
             + (if stage k (shared c) \<le> 1
                   \<and> (writing_for k (last (states_of c as))
                       \<or> 2 \<le> stage k (shared (last (states_of c as)))) then 1 else 0))
      \<and> ((\<forall>c' \<in> set (states_of c as). writing_for k c' \<longrightarrow> stage k (shared c') = 1) \<longrightarrow>
           sorted (map (\<lambda>c'. stage k (shared c')) (states_of c as)))"
  proof
    assume nev: "never_evicted k (map shared (states_of c as))"
    note r = run_moves [OF nev]
    from r have mv: "moves k c (last (states_of c as))" by blast
    have "\<not> writing_for k c \<longrightarrow>
           puts k (shared (last (states_of c as)))
             + (if writing_for k (last (states_of c as)) then 1 else 0)
           \<le> puts k (shared c)
             + (if stage k (shared c) \<le> 1
                   \<and> (writing_for k (last (states_of c as))
                       \<or> 2 \<le> stage k (shared (last (states_of c as)))) then 1 else 0)"
      using mv unfolding moves_def Let_def by (auto split: if_splits)
    with r show "sorted (map (\<lambda>c'. min 2 (stage k (shared c'))) (states_of c as))
      \<and> (\<not> writing_for k c \<longrightarrow>
           puts k (shared (last (states_of c as)))
             + (if writing_for k (last (states_of c as)) then 1 else 0)
           \<le> puts k (shared c)
             + (if stage k (shared c) \<le> 1
                   \<and> (writing_for k (last (states_of c as))
                       \<or> 2 \<le> stage k (shared (last (states_of c as)))) then 1 else 0))
      \<and> ((\<forall>c' \<in> set (states_of c as). writing_for k c' \<longrightarrow> stage k (shared c') = 1) \<longrightarrow>
           sorted (map (\<lambda>c'. stage k (shared c')) (states_of c as)))"
      by blast
  qed
  from run step_cause [of d a d' k] step_commits_when_pending [of d a d' k]
  show ?thesis by (simp add: new_object_def)
qed

text \<open>
  Claim C1, amended. While an id stays in the registry: its object is created pending
  and never returns to pending; the frame path commits to sending it (passes the test
  of line 315) only when it finds it pending, and puts at most one task for it; the
  stage changes only when the frame path creates the object or writes sending after a
  passed test, and when the worker writes done. The worker writes done for any id
  that is present, so an object can go from pending to done without being sent. In
  every run in which the object is still pending whenever the frame path stands
  between the test of line 315 and the write of line 321 for it, the status never
  moves backward in the order pending, sending, done.
\<close>

theorem status_lifecycle:
  "(never_evicted k (map shared (states_of c as)) \<longrightarrow>
      sorted (map (min 2) (stages k (states_of c as)))
      \<and> (\<not> writing_for k c \<longrightarrow>
           puts k (shared (last (states_of c as)))
             + (if writing_for k (last (states_of c as)) then 1 else 0)
           \<le> puts k (shared c)
             + (if stage k (shared c) \<le> 1
                   \<and> (writing_for k (last (states_of c as))
                       \<or> 2 \<le> stage k (shared (last (states_of c as)))) then 1 else 0))
      \<and> ((\<forall>c' \<in> set (states_of c as). writing_for k c' \<longrightarrow> stage k (shared c') = 1) \<longrightarrow>
           sorted (stages k (states_of c as))))
   \<and> (step d a = Inr d' \<and> stage k (shared d') \<noteq> stage k (shared d) \<and> stage k (shared d') \<noteq> 0 \<longrightarrow>
        (case a of
           FrameStep \<Rightarrow> (stage k (shared d) = 0 \<and> stage k (shared d') = 1)
                         \<or> (writing_for k d \<and> stage k (shared d') = 2)
         | WorkerStep img_ok env emit_ok \<Rightarrow> stage k (shared d') = 3
         | _ \<Rightarrow> False))
   \<and> (step d a = Inr d' \<and> \<not> writing_for k d \<and> writing_for k d' \<longrightarrow>
        a = FrameStep \<and> stage k (shared d) = 1)
   \<and> status (new_object yolo_raw_name) = Pending"
proof -
  have m: "map (min 2) (stages k cs) = map (\<lambda>c'. min 2 (stage k (shared c'))) cs" for cs
    by (simp add: stages_def)
  show ?thesis
    unfolding m using status_lifecycle_runs [of k c as d a d' yolo_raw_name]
    by (simp add: stages_def)
qed

text \<open>
  When the write-back of a left-over task falls between the test of line 315 and the
  write of line 321, the object goes from pending to done and then to sending.
\<close>

lemma write_back_between_test_and_write:
  "stages 7 (states_of race_start race_actions) = [1, 1, 1, 1, 3, 2]
   \<and> map (writing_for 7) (states_of race_start race_actions)
       = [False, False, False, True, True, False]"
  unfolding race_start_def race_actions_def
  by (simp add: step_def frame_step_def frame7_def box7_def bottle_def
      track_count_def track_test_def track_send_def check_api_quota_def crop_bounds_def
      worker_step_def worker_write_def sys0_def stale_task_def
      stages_def stage_def writing_for_def Let_def STABILITY_FRAMES_def MAX_RPM_def)

lemma run_example:
  "never_evicted 7 (map shared (states_of run_start run_actions))
   \<and> (\<forall>c' \<in> set (states_of run_start run_actions). writing_for 7 c' \<longrightarrow> stage 7 (shared c') = 1)
   \<and> \<not> writing_for 7 run_start
   \<and> stages 7 (states_of run_start run_actions) = [1, 1, 1, 1, 2, 2, 2, 2, 3, 3]
   \<and> puts 7 (shared run_start) = 0
   \<and> puts 7 (shared (last (states_of run_start run_actions))) = 1"
  unfolding run_start_def run_actions_def
  by (simp add: step_def frame_step_def frame7_def box7_def bottle_def can_def
      track_count_def track_test_def track_send_def check_api_quota_def crop_bounds_def
      evict_one_def worker_step_def worker_get_def cola_label worker_write_def worker_emit_def
      result_announced_def sys0_def stale_task_def
      stages_def stage_def puts_def is_put_for_def writing_for_def Let_def
      STABILITY_FRAMES_def MAX_RPM_def MAX_MISSING_FRAMES_def
      lit_failed_def lit_error_def lit_thinking_dots_def ascii_def)

lemma test_then_write:
  "step at_test FrameStep = Inr at_write \<and> step at_write FrameStep = Inr after_write"
  by (simp add: step_def frame_step_def at_test_def at_write_def after_write_def frame7_def
      box7_def bottle_def track_test_def track_send_def check_api_quota_def crop_bounds_def
      sys0_def stale_task_def Let_def STABILITY_FRAMES_def MAX_RPM_def)

lemma test_then_write_stages:
  "\<not> writing_for 7 at_test \<and> writing_for 7 at_write \<and> \<not> writing_for 7 after_write
   \<and> stage 7 (shared at_test) = 1 \<and> stage 7 (shared at_write) = 1
   \<and> stage 7 (shared after_write) = 2"
  by (simp add: writing_for_def stage_def at_test_def at_write_def after_write_def box7_def
      bottle_def sys0_def)

theorem status_lifecycle_witness:
  "never_evicted 7 (map shared (states_of run_start run_actions))
   \<and> \<not> writing_for 7 run_start
   \<and> stages 7 (states_of run_start run_actions) = [1, 1, 1, 1, 2, 2, 2, 2, 3, 3]
   \<and> sorted (map (min 2) (stages 7 (states_of run_start run_actions)))
   \<and> sorted (stages 7 (states_of run_start run_actions))
   \<and> puts 7 (shared (last (states_of run_start run_actions))) \<le> 1
   \<and> step at_test FrameStep = Inr at_write \<and> \<not> writing_for 7 at_test \<and> writing_for 7 at_write
   \<and> stage 7 (shared at_test) = 1
   \<and> step at_write FrameStep = Inr after_write \<and> stage 7 (shared after_write) = 2"
proof -
  note ex = run_example
  from ex have nev: "never_evicted 7 (map shared (states_of run_start run_actions))"
    and fresh: "\<forall>c' \<in> set (states_of run_start run_actions). writing_for 7 c' \<longrightarrow> stage 7 (shared c') = 1"
    and nw: "\<not> writing_for 7 run_start"
    and st: "stages 7 (states_of run_start run_actions) = [1, 1, 1, 1, 2, 2, 2, 2, 3, 3]"
    and p0: "puts 7 (shared run_start) = 0"
    by blast+
  note inst = status_lifecycle [of 7 run_start run_actions]
  from inst nev
  have so2: "sorted (map (min 2) (stages 7 (states_of run_start run_actions)))"
    by blast
  from inst nev fresh
  have so: "sorted (stages 7 (states_of run_start run_actions))"
    by blast
  from inst nev nw
  have "puts 7 (shared (last (states_of run_start run_actions)))
             + (if writing_for 7 (last (states_of run_start run_actions)) then 1 else 0)
           \<le> puts 7 (shared run_start)
             + (if stage 7 (shared run_start) \<le> 1
                   \<and> (writing_for 7 (last (states_of run_start run_actions))
                       \<or> 2 \<le> stage 7 (shared (last (states_of run_start run_actions)))) then 1 else 0)"
    by blast
  with p0 have pu: "puts 7 (shared (last (states_of run_start run_actions))) \<le> 1"
    by (simp split: if_splits)
  note e = test_then_write and s = test_then_write_stages
  from status_lifecycle [of 7 run_start run_actions at_test FrameStep at_write] e s
  have a: "stage 7 (shared at_test) = 1" by blast
  from status_lifecycle [of 7 run_start run_actions at_write FrameStep after_write] e s
  have b: "writing_for 7 at_write \<and> stage 7 (shared after_write) = 2" by simp
  from nev nw st so2 so pu e s a b show ?thesis by blast
qed

lemma frame_steps_add:
  "frame_steps n c = Inr c1 \<Longrightarrow> frame_steps (n + m) c = frame_steps m c1"
  by (induction n arbitrary: c) (auto split: sum.splits)

lemma frame_steps_box:
  assumes "frame_at c = Counting f (det # rest)"
  shows "\<exists>n. frame_steps n c
           = Inr (c\<lparr>shared := track_detection (frame_h f) (frame_w f) det (shared c),
                    frame_at := Counting f rest\<rparr>)"
proof -
  let ?s = "shared c"
  from track_detection_blocks [of det ?s "frame_h f" "frame_w f"] obtain go s2 where
    t: "track_test det (track_count det ?s) = Inr (go, s2)"
    and r: "if go then track_send (frame_h f) (frame_w f) det s2
                         = Inr (track_detection (frame_h f) (frame_w f) det ?s)
            else s2 = track_detection (frame_h f) (frame_w f) det ?s"
    by blast
  show ?thesis
  proof (cases go)
    case True
    with assms t r have "frame_steps 3 c
           = Inr (c\<lparr>shared := track_detection (frame_h f) (frame_w f) det ?s,
                    frame_at := Counting f rest\<rparr>)"
      by (simp add: numeral_3_eq_3 frame_step_def)
    then show ?thesis by blast
  next
    case False
    with assms t r have "frame_steps 2 c
           = Inr (c\<lparr>shared := track_detection (frame_h f) (frame_w f) det ?s,
                    frame_at := Counting f rest\<rparr>)"
      by (simp add: numeral_2_eq_2 frame_step_def)
    then show ?thesis by blast
  qed
qed

lemma frame_steps_boxes:
  assumes "frame_at c = Counting f boxes"
  shows "\<exists>n. frame_steps n c
           = Inr (c\<lparr>shared := fold (track_detection (frame_h f) (frame_w f)) boxes (shared c),
                    frame_at := Counting f []\<rparr>)"
  using assms
proof (induction boxes arbitrary: c)
  case Nil
  then have "frame_steps 0 c = Inr (c\<lparr>shared := shared c, frame_at := Counting f []\<rparr>)"
    by simp
  then show ?case by (metis fold_simps(1))
next
  case (Cons det rest)
  let ?c1 = "c\<lparr>shared := track_detection (frame_h f) (frame_w f) det (shared c),
               frame_at := Counting f rest\<rparr>"
  from frame_steps_box [OF Cons.prems] obtain n where n: "frame_steps n c = Inr ?c1" by blast
  have "frame_at ?c1 = Counting f rest" by simp
  from Cons.IH [OF this] obtain m where
    m: "frame_steps m ?c1
          = Inr (?c1\<lparr>shared := fold (track_detection (frame_h f) (frame_w f)) rest (shared ?c1),
                     frame_at := Counting f []\<rparr>)"
    by blast
  from frame_steps_add [OF n, of m] m
  have "frame_steps (n + m) c
          = Inr (c\<lparr>shared := fold (track_detection (frame_h f) (frame_w f)) (det # rest) (shared c),
                   frame_at := Counting f []\<rparr>)"
    by simp
  then show ?case by blast
qed

text \<open>
  Run without interruption, the blocks of the frame path make up \<open>process_frame\<close>, and
  those of the worker make up \<open>worker_finish\<close>.
\<close>

lemma frame_pass_blocks:
  assumes "frame_at c = Counting f (detections f)" and "process_frame f (shared c) = Inr s'"
  shows "\<exists>n. frame_steps n c = Inr (c\<lparr>shared := s', frame_at := Between\<rparr>)"
proof -
  let ?s1 = "fold (track_detection (frame_h f) (frame_w f)) (detections f) (shared c)"
  let ?c1 = "c\<lparr>shared := ?s1, frame_at := Counting f []\<rparr>"
  from frame_steps_boxes [OF assms(1)] obtain n where n: "frame_steps n c = Inr ?c1" by blast
  from assms(2) have "evict_loop (set (map det_id (detections f))) (map fst (object_database ?s1)) ?s1 = Inr s'"
    by (simp add: process_frame_def Let_def)
  then have "frame_steps 1 ?c1 = Inr (c\<lparr>shared := s', frame_at := Between\<rparr>)"
    by (simp add: frame_step_def)
  with frame_steps_add [OF n, of 1] show ?thesis by metis
qed

lemma worker_blocks:
  assumes "worker_at c = Holding" and "worker_task (shared c) = Some t"
  shows "if snd (worker_recognise img_ok env (shared c)) = None
         then worker_step img_ok env emit_ok c
                = c\<lparr>shared := worker_finish img_ok env emit_ok (shared c), worker_at := Waiting\<rparr>
         else worker_step img_ok env emit_ok
                (worker_step img_ok env emit_ok (worker_step img_ok env emit_ok c))
                = c\<lparr>shared := worker_finish img_ok env emit_ok (shared c), worker_at := Waiting\<rparr>"
proof -
  obtain s1 r where w: "worker_recognise img_ok env (shared c) = (s1, r)"
    by (cases "worker_recognise img_ok env (shared c)")
  have "worker_task (fst (worker_recognise img_ok env (shared c))) = worker_task (shared c)"
    using worker_loop_frame [of env "shared c" lit_recognition_failed]
    by (auto simp: worker_recognise_def split: prod.splits sum.splits)
  with w assms have wt: "worker_task s1 = Some t" by simp
  show ?thesis
    using assms w wt
    by (cases r) (simp_all add: worker_step_def worker_finish_blocks)
qed

lemma worker_write_keys:
  "map fst (object_database (worker_write t name s)) = map fst (object_database s)"
proof (cases "map_of (object_database s) (task_id t)")
  case None
  then show ?thesis by (simp add: worker_write_def)
next
  case (Some d)
  then have "task_id t \<in> fst ` set (object_database s)"
    by (metis map_of_eq_None_iff option.distinct(1))
  with Some show ?thesis by (simp add: worker_write_def AList.update_keys)
qed

text \<open>From a well-formed state no step raises, and the state stays well-formed.\<close>

lemma step_total:
  assumes "well_formed c"
  shows "\<exists>c'. step c a = Inr c' \<and> well_formed c'"
proof (cases a)
  case (FrameCall f)
  with assms show ?thesis
    by (auto simp: step_def well_formed_def box_entered_def)
next
  case FrameStep
  show ?thesis
  proof (cases "frame_at c")
    case Between
    with assms FrameStep show ?thesis by (simp add: step_def frame_step_def)
  next
    case (Counting f boxes)
    show ?thesis
    proof (cases boxes)
      case Nil
      let ?s = "shared c"
      from assms have d: "distinct (map fst (object_database ?s))" by (simp add: well_formed_def)
      have pres: "\<forall>k \<in> set (map fst (object_database ?s)). map_of (object_database ?s) k \<noteq> None"
        by (simp add: map_of_eq_None_iff)
      from evict_loop_result [OF d pres, of "set (map det_id (detections f))"] d
      obtain s' where "evict_loop (set (map det_id (detections f))) (map fst (object_database ?s)) ?s = Inr s'"
        and "distinct (map fst (object_database s'))"
        by blast
      with FrameStep Counting Nil show ?thesis
        by (simp add: step_def frame_step_def well_formed_def box_entered_def)
    next
      case (Cons det rest)
      with assms FrameStep Counting show ?thesis
        by (auto simp: step_def frame_step_def well_formed_def box_entered_def track_count_def
            Let_def AList.update_conv' AList.distinct_update)
    qed
  next
    case (Testing f det rest)
    with assms obtain d where d: "map_of (object_database (shared c)) (det_id det) = Some d"
      by (auto simp: well_formed_def box_entered_def)
    with assms FrameStep Testing show ?thesis
      by (auto simp: step_def frame_step_def well_formed_def box_entered_def track_test_def
          check_api_quota_def Let_def)
  next
    case (Writing f det rest)
    with assms obtain d where d: "map_of (object_database (shared c)) (det_id det) = Some d"
      by (auto simp: well_formed_def box_entered_def)
    with assms FrameStep Writing show ?thesis
      by (auto simp: step_def frame_step_def well_formed_def box_entered_def track_send_def
          Let_def AList.distinct_update)
  qed
next
  case (WorkerStep img_ok env emit_ok)
  let ?c' = "worker_step img_ok env emit_ok c"
  have fa: "frame_at ?c' = frame_at c"
    by (auto simp: worker_step_def Let_def split: worker_pc.splits prod.splits option.splits)
  have keys: "map fst (object_database (shared ?c')) = map fst (object_database (shared c))"
  proof (cases "worker_at c")
    case Waiting
    then show ?thesis by (auto simp: worker_step_def Let_def worker_get_effect)
  next
    case Holding
    with worker_recognise_effect(1) [of img_ok env "shared c"] show ?thesis
      by (auto simp: worker_step_def split: prod.splits option.splits)
  next
    case (Labelled name)
    then show ?thesis
      by (auto simp: worker_step_def worker_write_keys split: option.splits)
  next
    case (Stored name)
    then show ?thesis by (simp add: worker_step_def worker_emit_effect)
  qed
  have "map_of (object_database (shared ?c')) k \<noteq> None
          \<longleftrightarrow> map_of (object_database (shared c)) k \<noteq> None" for k
    using keys by (metis map_of_eq_None_iff list.set_map)
  with assms fa keys have "well_formed ?c'"
    by (auto simp: well_formed_def box_entered_def split: frame_pc.splits)
  with WorkerStep show ?thesis by (simp add: step_def)
next
  case Resync
  with assms show ?thesis
    by (auto simp: step_def well_formed_def box_entered_def on_resync_request_trace
        split: frame_pc.splits)
next
  case (Reconnect ok)
  with assms show ?thesis
    by (auto simp: step_def well_formed_def box_entered_def retry_connection_def Let_def
        split: frame_pc.splits)
qed

end
